theory Spec2Isabelle
  imports Main "HOL-Library.Word"
begin

unbundle bit_operations_syntax

section \<open>Byte strings and the coding primitives\<close>

text \<open>
  A \<open>Slice\<close> or a \<open>std::string\<close> is the list of its bytes. A slice that is advanced
  (\<open>GetVarint64(input, ...)\<close>) is the remaining suffix of the list.
\<close>

type_synonym byte = "8 word"
type_synonym bytes = "byte list"

text \<open>
  Modelled from the spec: \<open>util/coding.h\<close> and \<open>util/coding.cc\<close> (PutFixed32, PutFixed64,
  DecodeFixed32, DecodeFixed64, PutVarint32, PutVarint64, GetVarint32, GetVarint64) are
  not among the sources. The spec fixes them as little-endian fixed-width integers and as
  varint32/varint64: seven payload bits per byte, least significant group first, the top
  bit of a byte set when another byte follows.
\<close>

fun EncodeFixed :: "nat \<Rightarrow> nat \<Rightarrow> bytes" where
  "EncodeFixed 0 v = []"
| "EncodeFixed (Suc k) v = of_nat (v mod 256) # EncodeFixed k (v div 256)"

fun DecodeFixed :: "bytes \<Rightarrow> nat" where
  "DecodeFixed [] = 0"
| "DecodeFixed (b # p) = unat b + 256 * DecodeFixed p"

definition EncodeFixed32 :: "32 word \<Rightarrow> bytes" where
  "EncodeFixed32 v = EncodeFixed 4 (unat v)"

definition EncodeFixed64 :: "64 word \<Rightarrow> bytes" where
  "EncodeFixed64 v = EncodeFixed 8 (unat v)"

text \<open>\<open>DecodeFixed32(p)\<close> reads the four bytes at \<open>p\<close>; the caller answers for the bounds.\<close>

definition DecodeFixed32 :: "bytes \<Rightarrow> 32 word" where
  "DecodeFixed32 p = of_nat (DecodeFixed (take 4 p))"

definition DecodeFixed64 :: "bytes \<Rightarrow> 64 word" where
  "DecodeFixed64 p = of_nat (DecodeFixed (take 8 p))"

fun EncodeVarint :: "nat \<Rightarrow> bytes" where
  "EncodeVarint v =
     (if v < 128 then [of_nat v] else of_nat (v mod 128 + 128) # EncodeVarint (v div 128))"

declare EncodeVarint.simps [simp del]

definition EncodeVarint32 :: "32 word \<Rightarrow> bytes" where
  "EncodeVarint32 v = EncodeVarint (unat v)"

definition EncodeVarint64 :: "64 word \<Rightarrow> bytes" where
  "EncodeVarint64 v = EncodeVarint (unat v)"

text \<open>
  \<open>GetVarint32Ptr\<close>/\<open>GetVarint64Ptr\<close>: at most \<open>k\<close> bytes are read (5 for 32 bits, 10
  for 64), never past the limit of the slice; \<open>None\<close> is the \<open>NULL\<close> result.
\<close>

fun GetVarintPtr :: "nat \<Rightarrow> bytes \<Rightarrow> (nat \<times> bytes) option" where
  "GetVarintPtr 0 p = None"
| "GetVarintPtr (Suc k) [] = None"
| "GetVarintPtr (Suc k) (b # p) =
     (if b AND 128 \<noteq> 0
      then (case GetVarintPtr k p of
              None \<Rightarrow> None
            | Some (v, q) \<Rightarrow> Some (unat (b AND 127) + 128 * v, q))
      else Some (unat b, p))"

definition GetVarint32 :: "bytes \<Rightarrow> (32 word \<times> bytes) option" where
  "GetVarint32 input = (case GetVarintPtr 5 input of
                          None \<Rightarrow> None
                        | Some (v, q) \<Rightarrow> Some (of_nat v, q))"

definition GetVarint64 :: "bytes \<Rightarrow> (64 word \<times> bytes) option" where
  "GetVarint64 input = (case GetVarintPtr 10 input of
                          None \<Rightarrow> None
                        | Some (v, q) \<Rightarrow> Some (of_nat v, q))"

text \<open>A successful \<open>GetVarint\<close> advances the slice by at least one byte.\<close>

lemma GetVarintPtr_length:
  "GetVarintPtr k p = Some (v, q) \<Longrightarrow> length q < length p"
  by (induction k p arbitrary: v q rule: GetVarintPtr.induct)
    (auto split: if_splits option.splits)

lemma GetVarint32_length: "GetVarint32 p = Some (v, q) \<Longrightarrow> length q < length p"
  by (auto simp: GetVarint32_def split: option.splits dest: GetVarintPtr_length)

section \<open>Internal keys (db/dbformat.cc)\<close>

text \<open>
  Modelled from the spec: \<open>db/dbformat.h\<close> is not among the sources. It declares the
  value types, \<open>kValueTypeForSeek\<close>, \<open>kMaxSequenceNumber\<close>, \<open>ExtractUserKey\<close> and the
  unpacking of a tag. The spec gives the tags Value and Deletion, the maximal sequence
  number \<open>2^56 - 1\<close>, and the layout of an internal key: the user key followed by the
  eight bytes of \<open>(sequence << 8) | type\<close>. The numbering of the two tags is LevelDB's;
  \<open>PackSequenceAndType\<close> below asserts that no type exceeds \<open>kValueTypeForSeek\<close>.
\<close>

type_synonym SequenceNumber = "64 word"
type_synonym ValueType = "8 word"

definition kTypeDeletion :: ValueType where
  "kTypeDeletion = 0"

definition kTypeValue :: ValueType where
  "kTypeValue = 1"

definition kValueTypeForSeek :: ValueType where
  "kValueTypeForSeek = kTypeValue"

definition kMaxSequenceNumber :: SequenceNumber where
  "kMaxSequenceNumber = push_bit 56 1 - 1"

text \<open>\<open>ExtractUserKey\<close> asserts that the internal key holds its eight tag bytes.\<close>

definition ExtractUserKey :: "bytes \<Rightarrow> bytes option" where
  "ExtractUserKey internal_key =
     (if 8 \<le> length internal_key
      then Some (take (length internal_key - 8) internal_key)
      else None)"

text \<open>The tag of an internal key: \<open>DecodeFixed64(key.data() + key.size() - 8)\<close>.\<close>

definition tag_of :: "bytes \<Rightarrow> 64 word" where
  "tag_of internal_key = DecodeFixed64 (drop (length internal_key - 8) internal_key)"

definition sequence_of :: "bytes \<Rightarrow> SequenceNumber" where
  "sequence_of internal_key = drop_bit 8 (tag_of internal_key)"

definition type_of :: "bytes \<Rightarrow> ValueType" where
  "type_of internal_key = ucast (tag_of internal_key AND 255)"

text \<open>
  \<open>PackSequenceAndType\<close>, with its two assertions: \<open>None\<close> is the failed assertion.
\<close>

definition PackSequenceAndType :: "SequenceNumber \<Rightarrow> ValueType \<Rightarrow> 64 word option" where
  "PackSequenceAndType seq t =
     (if seq \<le> kMaxSequenceNumber \<and> t \<le> kValueTypeForSeek
      then Some (push_bit 8 seq OR ucast t)
      else None)"

text \<open>
  \<open>InternalKeyComparator::Compare\<close>. The user comparator is the parameter \<open>ucmp\<close>, with
  C's three-way \<open>int\<close> result. \<open>None\<close>: a key shorter than its tag.
\<close>

definition InternalKeyComparator_Compare ::
  "(bytes \<Rightarrow> bytes \<Rightarrow> int) \<Rightarrow> bytes \<Rightarrow> bytes \<Rightarrow> int option" where
  "InternalKeyComparator_Compare ucmp akey bkey =
     (case ExtractUserKey akey of
        None \<Rightarrow> None
      | Some ua \<Rightarrow>
         (case ExtractUserKey bkey of
            None \<Rightarrow> None
          | Some ub \<Rightarrow>
             (let r = ucmp ua ub in
              if r = 0
              then (let anum = tag_of akey; bnum = tag_of bkey in
                    if anum > bnum then Some (- 1)
                    else if anum < bnum then Some 1
                    else Some r)
              else Some r)))"

text \<open>
  \<open>LookupKey::LookupKey\<close>. The object is its buffer \<open>[start_, end_)\<close> and the offset of
  \<open>kstart_\<close> in it. \<open>usize + 8\<close> is passed to \<open>EncodeVarint32\<close> as a \<open>uint32_t\<close>. The
  buffer of \<open>usize + 13\<close> bytes always holds the at most five bytes of the length, the
  key and the tag.
\<close>

record LookupKey =
  lk_rep :: bytes
  lk_kstart :: nat

definition LookupKey_new :: "bytes \<Rightarrow> SequenceNumber \<Rightarrow> LookupKey option" where
  "LookupKey_new user_key s =
     (let usize = length user_key;
          klength = EncodeVarint32 (of_nat (usize + 8))
      in case PackSequenceAndType s kValueTypeForSeek of
           None \<Rightarrow> None
         | Some tag \<Rightarrow>
             Some \<lparr> lk_rep = klength @ user_key @ EncodeFixed64 tag,
                    lk_kstart = length klength \<rparr>)"

text \<open>
  The bytewise order on keys, as \<open>memcmp\<close> followed by the comparison of the lengths:
  the comparator the examples below are run with.
\<close>

fun BytewiseCompare :: "bytes \<Rightarrow> bytes \<Rightarrow> int" where
  "BytewiseCompare [] [] = 0"
| "BytewiseCompare [] (y # ys) = - 1"
| "BytewiseCompare (x # xs) [] = 1"
| "BytewiseCompare (x # xs) (y # ys) =
     (if x < y then - 1 else if y < x then 1 else BytewiseCompare xs ys)"

section \<open>Status (util/status.cc)\<close>

text \<open>
  A \<open>Status\<close> is OK (no state) or a code with its message. \<open>Status::Corruption(msg)\<close>
  of \<open>leveldb/status.h\<close> builds \<open>Status(kCorruption, msg, Slice())\<close>.
\<close>

datatype Code = kOk | kNotFound | kCorruption | kNotSupported | kInvalidArgument | kIOError

datatype Status = OK | Status Code string

definition Corruption :: "string \<Rightarrow> Status" where
  "Corruption msg = Status kCorruption msg"

fun IsCorruption :: "Status \<Rightarrow> bool" where
  "IsCorruption OK = False"
| "IsCorruption (Status c msg) = (c = kCorruption)"

fun ok :: "Status \<Rightarrow> bool" where
  "ok OK = True"
| "ok (Status c msg) = False"

text \<open>
  A read of four bytes at an offset of a buffer, with the bounds written out: \<open>None\<close> is
  the read past the end of the buffer, which C++ leaves undefined.
\<close>

definition read_fixed32 :: "bytes \<Rightarrow> nat \<Rightarrow> 32 word option" where
  "read_fixed32 data off =
     (if off + 4 \<le> length data then Some (DecodeFixed32 (drop off data)) else None)"

section \<open>Block handle and footer (table/format.cc)\<close>

text \<open>
  Modelled from the spec: \<open>table/format.h\<close> is not among the sources. The spec gives the
  maximal encoded length of a handle (20 bytes), the fixed length of the footer
  (\<open>2 * 20 + 8 = 48\<close> bytes) and the size of the block trailer (a type byte and a 4-byte
  checksum). The value of the magic number and the numbering of the compression types
  are LevelDB's; no theorem below depends on them.
\<close>

definition kMaxEncodedLength :: nat where
  "kMaxEncodedLength = 10 + 10"

definition kEncodedLength :: nat where
  "kEncodedLength = 2 * kMaxEncodedLength + 8"

definition kTableMagicNumber :: "64 word" where
  "kTableMagicNumber = 0xdb4775248b80fb57"

definition kBlockTrailerSize :: "64 word" where
  "kBlockTrailerSize = 5"

definition kNoCompression :: byte where
  "kNoCompression = 0"

definition kSnappyCompression :: byte where
  "kSnappyCompression = 1"

record BlockHandle =
  h_offset :: "64 word"
  h_size :: "64 word"

text \<open>
  \<open>h_offset\<close> and \<open>h_size\<close> are the fields \<open>offset_\<close> and \<open>size_\<close>.
  \<open>BlockHandle::EncodeTo\<close>: both fields must have been set (not \<open>~0\<close>).
\<close>

definition BlockHandle_EncodeTo :: "BlockHandle \<Rightarrow> bytes \<Rightarrow> bytes option" where
  "BlockHandle_EncodeTo h dst =
     (if h_offset h \<noteq> NOT 0 \<and> h_size h \<noteq> NOT 0
      then Some (dst @ EncodeVarint64 (h_offset h) @ EncodeVarint64 (h_size h))
      else None)"

text \<open>
  \<open>BlockHandle::DecodeFrom\<close> changes the handle and advances the input: the result is
  the status, the handle and the input afterwards. \<open>GetVarint64\<close> stores a value and
  advances the slice only when it succeeds, and \<open>&&\<close> stops at the first failure.
\<close>

definition BlockHandle_DecodeFrom :: "BlockHandle \<Rightarrow> bytes \<Rightarrow> Status \<times> BlockHandle \<times> bytes" where
  "BlockHandle_DecodeFrom h input =
     (case GetVarint64 input of
        None \<Rightarrow> (Corruption ''bad block handle'', h, input)
      | Some (off, input1) \<Rightarrow>
         (case GetVarint64 input1 of
            None \<Rightarrow> (Corruption ''bad block handle'', h\<lparr>h_offset := off\<rparr>, input1)
          | Some (sz, input2) \<Rightarrow> (OK, h\<lparr>h_offset := off, h_size := sz\<rparr>, input2)))"

record Footer =
  metaindex_handle :: BlockHandle
  index_handle :: BlockHandle

text \<open>\<open>std::string::resize(n)\<close>: cut to \<open>n\<close> bytes or filled up with zero bytes.\<close>

definition resize :: "nat \<Rightarrow> bytes \<Rightarrow> bytes" where
  "resize n dst = take n dst @ replicate (n - length dst) 0"

text \<open>
  \<open>Footer::EncodeTo\<close>. The padding resizes \<open>dst\<close> to \<open>2 * kMaxEncodedLength\<close> bytes in
  all, and the final assertion compares with the size \<open>dst\<close> had at the start.
\<close>

definition Footer_EncodeTo :: "Footer \<Rightarrow> bytes \<Rightarrow> bytes option" where
  "Footer_EncodeTo f dst =
     (case BlockHandle_EncodeTo (metaindex_handle f) dst of
        None \<Rightarrow> None
      | Some dst1 \<Rightarrow>
         (case BlockHandle_EncodeTo (index_handle f) dst1 of
            None \<Rightarrow> None
          | Some dst2 \<Rightarrow>
             (let dst3 = resize (2 * kMaxEncodedLength) dst2;
                  dst4 = dst3 @ EncodeFixed32 (ucast (kTableMagicNumber AND 0xffffffff));
                  dst5 = dst4 @ EncodeFixed32 (ucast (drop_bit 32 kTableMagicNumber))
              in if length dst5 = length dst + kEncodedLength then Some dst5 else None)))"

text \<open>The magic number as \<open>Footer::DecodeFrom\<close> puts it together from its two halves.\<close>

definition magic_of :: "32 word \<Rightarrow> 32 word \<Rightarrow> 64 word" where
  "magic_of magic_lo magic_hi = push_bit 32 (ucast magic_hi) OR ucast magic_lo"

text \<open>
  \<open>Footer::DecodeFrom\<close>: the status, the footer and the input afterwards. The two reads
  of the magic number are at the offsets \<open>kEncodedLength - 8\<close> and \<open>kEncodedLength - 4\<close>
  of the input, whatever its size; the result is \<open>None\<close> when one of them is past the
  end of the input.
\<close>

definition Footer_DecodeFrom :: "Footer \<Rightarrow> bytes \<Rightarrow> (Status \<times> Footer \<times> bytes) option" where
  "Footer_DecodeFrom f input =
     (let magic_ptr = kEncodedLength - 8 in
      case read_fixed32 input magic_ptr of
        None \<Rightarrow> None
      | Some magic_lo \<Rightarrow>
         (case read_fixed32 input (magic_ptr + 4) of
            None \<Rightarrow> None
          | Some magic_hi \<Rightarrow>
             (if magic_of magic_lo magic_hi \<noteq> kTableMagicNumber
              then Some (Corruption ''not an sstable (bad magic number)'', f, input)
              else
                (case BlockHandle_DecodeFrom (metaindex_handle f) input of
                   (result, mh, input1) \<Rightarrow>
                     (let f1 = f\<lparr>metaindex_handle := mh\<rparr> in
                      if \<not> ok result then Some (result, f1, input1)
                      else
                        (case BlockHandle_DecodeFrom (index_handle f1) input1 of
                           (result2, ih, input2) \<Rightarrow>
                             (let f2 = f1\<lparr>index_handle := ih\<rparr> in
                              if ok result2
                              then Some (result2, f2, drop (magic_ptr + 8) input)
                              else Some (result2, f2, input2))))))))"

text \<open>
  The footer of the spec's example, with the handles (100, 50) and (150, 80), as
  \<open>EncodeTo\<close> writes it; the same bytes with the last byte changed; and a footer whose
  handles are not set yet.
\<close>

definition footer_bytes :: bytes where
  "footer_bytes = [100, 50, 150, 1, 80] @ replicate 35 0 @ [87, 251, 128, 139, 36, 117, 71, 219]"

definition footer_bytes_bad :: bytes where
  "footer_bytes_bad = [100, 50, 150, 1, 80] @ replicate 35 0 @ [87, 251, 128, 139, 36, 117, 71, 0]"

definition empty_footer :: Footer where
  "empty_footer = \<lparr> metaindex_handle = \<lparr> h_offset = NOT 0, h_size = NOT 0 \<rparr>,
                    index_handle = \<lparr> h_offset = NOT 0, h_size = NOT 0 \<rparr> \<rparr>"

definition footer_example :: Footer where
  "footer_example = \<lparr> metaindex_handle = \<lparr> h_offset = 100, h_size = 50 \<rparr>,
                      index_handle = \<lparr> h_offset = 150, h_size = 80 \<rparr> \<rparr>"

section \<open>Reading a block (table/format.cc)\<close>

text \<open>
  What \<open>ReadBlock\<close> calls outside this file is a parameter: the checksum
  (\<open>crc32c::Value\<close>, \<open>crc32c::Unmask\<close>) and the decompressor
  (\<open>port::Snappy_GetUncompressedLength\<close>, \<open>port::Snappy_Uncompress\<close>, each \<open>None\<close>
  where the C++ returns false).
\<close>

record Port =
  crc32c_Value :: "bytes \<Rightarrow> 32 word"
  crc32c_Unmask :: "32 word \<Rightarrow> 32 word"
  Snappy_GetUncompressedLength :: "bytes \<Rightarrow> nat option"
  Snappy_Uncompress :: "bytes \<Rightarrow> bytes option"

text \<open>
  \<open>RandomAccessFile::Read(offset, n, &result, scratch)\<close> is the parameter \<open>file_Read\<close>:
  it returns the status, the bytes of the result slice, and whether the slice lies in
  the scratch buffer (\<open>data == buf\<close>).
\<close>

type_synonym RandomAccessFile = "64 word \<Rightarrow> 64 word \<Rightarrow> Status \<times> bytes \<times> bool"

record ReadOptions =
  verify_checksums :: bool

record BlockContents =
  data :: bytes
  cachable :: bool
  heap_allocated :: bool

text \<open>
  \<open>ReadBlock\<close>, with \<open>size_t\<close> as a 64-bit word: \<open>n + kBlockTrailerSize\<close> wraps. The
  reads of \<open>data[n]\<close> and of the checksum behind it are in bounds when the slice holds
  \<open>n + 5\<close> bytes; \<open>None\<close> is a read past its end (only after a wrap of the size).
\<close>

definition ReadBlock ::
  "Port \<Rightarrow> RandomAccessFile \<Rightarrow> ReadOptions \<Rightarrow> BlockHandle \<Rightarrow> (Status \<times> BlockContents) option" where
  "ReadBlock port file_Read options handle =
     (let result = \<lparr> data = [], cachable = False, heap_allocated = False \<rparr>;
          n = h_size handle
      in case file_Read (h_offset handle) (n + kBlockTrailerSize) of
        (s, contents, in_buf) \<Rightarrow>
          if \<not> ok s then Some (s, result)
          else if length contents \<noteq> unat (n + kBlockTrailerSize)
          then Some (Corruption ''truncated block read'', result)
          else if length contents < unat n + 5 then None
          else if verify_checksums options \<and>
                  crc32c_Value port (take (unat n + 1) contents) \<noteq>
                  crc32c_Unmask port (DecodeFixed32 (drop (unat n + 1) contents))
          then Some (Corruption ''block checksum mismatch'', result)
          else if contents ! unat n = kNoCompression
          then (if \<not> in_buf
                then Some (OK, \<lparr> data = take (unat n) contents,
                                  cachable = False, heap_allocated = False \<rparr>)
                else Some (OK, \<lparr> data = take (unat n) contents,
                                  cachable = True, heap_allocated = True \<rparr>))
          else if contents ! unat n = kSnappyCompression
          then (case Snappy_GetUncompressedLength port (take (unat n) contents) of
                  None \<Rightarrow> Some (Corruption ''corrupted compressed block contents'', result)
                | Some ulength \<Rightarrow>
                   (case Snappy_Uncompress port (take (unat n) contents) of
                      None \<Rightarrow> Some (Corruption ''corrupted compressed block contents'', result)
                    | Some ubuf \<Rightarrow>
                        Some (OK, \<lparr> data = take ulength ubuf,
                                     cachable = True, heap_allocated = True \<rparr>)))
          else Some (Corruption ''bad block type'', result))"

text \<open>
  An example: a checksum that is the number of bytes, no unmasking, no decompressor; a
  file that is its bytes, read as \<open>pread\<close> does; a block of three bytes with the type
  byte 0 and its checksum.
\<close>

definition example_port :: Port where
  "example_port = \<lparr> crc32c_Value = (\<lambda>b. of_nat (length b)), crc32c_Unmask = (\<lambda>w. w),
                    Snappy_GetUncompressedLength = (\<lambda>b. None),
                    Snappy_Uncompress = (\<lambda>b. None) \<rparr>"

definition bytes_file :: "bytes \<Rightarrow> RandomAccessFile" where
  "bytes_file content offset n = (OK, take (unat n) (drop (unat offset) content), True)"

definition block_example :: bytes where
  "block_example = [1, 2, 3, 0, 4, 0, 0, 0]"

definition handle_example :: BlockHandle where
  "handle_example = \<lparr> h_offset = 0, h_size = 3 \<rparr>"

text \<open>
  A handle of size \<open>2^64 - 5\<close>, as \<open>BlockHandle::DecodeFrom\<close> reads it from the varint of
  a damaged file.
\<close>

definition handle_wrap :: BlockHandle where
  "handle_wrap = \<lparr> h_offset = 0, h_size = 18446744073709551611 \<rparr>"

section \<open>Filter block reader (table/filter_block.cc)\<close>

text \<open>
  The reader keeps the policy's membership test \<open>policy_->KeyMayMatch(key, filter)\<close>
  (\<open>fr_policy\<close>), the block (\<open>fr_data\<close> for \<open>data_\<close>, \<open>None\<close> for \<open>NULL\<close>), the
  offset of the offset array in it (\<open>fr_offset\<close> for \<open>offset_ - data_\<close>), the number of
  entries (\<open>fr_num\<close>) and \<open>base_lg_\<close> (\<open>fr_base_lg\<close>): the last byte of the block
  converted from \<open>char\<close> to \<open>size_t\<close>. A byte \<open>b\<close> below 128 is its value. A byte \<open>b\<close>
  from 128 on is \<open>b\<close> where \<open>char\<close> is unsigned, as it is kept here, and
  \<open>2^64 - 256 + b\<close> where \<open>char\<close> is signed: a shift by 64 or more either way, for
  which \<open>KeyMayMatch\<close> below has the one answer \<open>None\<close>.
\<close>

record FilterBlockReader =
  fr_policy :: "bytes \<Rightarrow> bytes \<Rightarrow> bool"
  fr_data :: "bytes option"
  fr_offset :: nat
  fr_num :: nat
  fr_base_lg :: nat

definition FilterBlockReader_new :: "(bytes \<Rightarrow> bytes \<Rightarrow> bool) \<Rightarrow> bytes \<Rightarrow> FilterBlockReader" where
  "FilterBlockReader_new policy contents =
     (let n = length contents;
          r = \<lparr> fr_policy = policy, fr_data = None, fr_offset = 0, fr_num = 0, fr_base_lg = 0 \<rparr>
      in if n < 5 then r
         else
           (let r1 = r\<lparr>fr_base_lg := unat (contents ! (n - 1))\<rparr>;
                last_word = unat (DecodeFixed32 (drop (n - 5) contents))
            in if last_word > n - 5 then r1
               else r1\<lparr>fr_data := Some contents, fr_offset := last_word,
                        fr_num := (n - 5 - last_word) div 4\<rparr>))"

text \<open>
  \<open>FilterBlockReader::KeyMayMatch\<close>. \<open>None\<close>: a shift of a 64-bit value by 64 or more,
  or a read outside the block; C++ defines neither.
\<close>

definition KeyMayMatch :: "FilterBlockReader \<Rightarrow> 64 word \<Rightarrow> bytes \<Rightarrow> bool option" where
  "KeyMayMatch r block_offset key =
     (if 64 \<le> fr_base_lg r then None
      else
        (let index = unat (drop_bit (fr_base_lg r) block_offset) in
         if index < fr_num r
         then (case fr_data r of
                 None \<Rightarrow> None
               | Some d \<Rightarrow>
                  (case read_fixed32 d (fr_offset r + index * 4) of
                     None \<Rightarrow> None
                   | Some start \<Rightarrow>
                      (case read_fixed32 d (fr_offset r + index * 4 + 4) of
                         None \<Rightarrow> None
                       | Some limit \<Rightarrow>
                          if start \<le> limit \<and> unat limit \<le> fr_offset r
                          then Some (fr_policy r key
                                       (take (unat limit - unat start) (drop (unat start) d)))
                          else if start = limit then Some False
                          else Some True)))
         else Some True))"

text \<open>The filter block of the example below.\<close>

definition filter_block_example :: bytes where
  "filter_block_example = [170, 0, 0, 0, 0, 1, 0, 0, 0, 1, 0, 0, 0, 11]"

section \<open>Block builder (table/block_builder.cc)\<close>

text \<open>
  Of \<open>Options\<close> the builder reads the restart interval and the comparator. The fields
  \<open>bb_options\<close>, \<open>bb_buffer\<close>, \<open>bb_restarts\<close>, \<open>bb_counter\<close>, \<open>bb_finished\<close> and
  \<open>bb_last_key\<close> are \<open>options_\<close>, \<open>buffer_\<close>, \<open>restarts_\<close> (a vector of \<open>uint32_t\<close>),
  \<open>counter_\<close>, \<open>finished_\<close> and \<open>last_key_\<close>.
\<close>

record Options =
  block_restart_interval :: int
  comparator :: "bytes \<Rightarrow> bytes \<Rightarrow> int"

record BlockBuilder =
  bb_options :: Options
  bb_buffer :: bytes
  bb_restarts :: "32 word list"
  bb_counter :: int
  bb_finished :: bool
  bb_last_key :: bytes

text \<open>The constructor asserts an interval of at least 1; \<open>None\<close> is a failed assertion.\<close>

definition BlockBuilder_new :: "Options \<Rightarrow> BlockBuilder option" where
  "BlockBuilder_new options =
     (if 1 \<le> block_restart_interval options
      then Some \<lparr> bb_options = options, bb_buffer = [], bb_restarts = [0], bb_counter = 0,
                  bb_finished = False, bb_last_key = [] \<rparr>
      else None)"

definition BlockBuilder_Reset :: "BlockBuilder \<Rightarrow> BlockBuilder" where
  "BlockBuilder_Reset b =
     b\<lparr>bb_buffer := [], bb_restarts := [0], bb_counter := 0, bb_finished := False,
       bb_last_key := []\<rparr>"

definition CurrentSizeEstimate :: "BlockBuilder \<Rightarrow> nat" where
  "CurrentSizeEstimate b = length (bb_buffer b) + length (bb_restarts b) * 4 + 4"

text \<open>The loop of \<open>Add\<close> that counts the bytes shared with the previous key.\<close>

function shared_loop :: "bytes \<Rightarrow> bytes \<Rightarrow> nat \<Rightarrow> nat \<Rightarrow> nat" where
  "shared_loop last_key_piece key min_length shared =
     (if shared < min_length \<and> last_key_piece ! shared = key ! shared
      then shared_loop last_key_piece key min_length (shared + 1)
      else shared)"
  by pat_completeness auto
termination
  by (relation "measure (\<lambda>(l, k, m, s). m - s)") auto

declare shared_loop.simps [simp del]

text \<open>
  \<open>BlockBuilder::Add\<close>. The lengths are passed to \<open>PutVarint32\<close> and the offset of a
  restart to \<open>push_back\<close> as \<open>uint32_t\<close>.
\<close>

definition BlockBuilder_Add :: "BlockBuilder \<Rightarrow> bytes \<Rightarrow> bytes \<Rightarrow> BlockBuilder option" where
  "BlockBuilder_Add b key value =
     (let interval = block_restart_interval (bb_options b);
          last_key_piece = bb_last_key b
      in if bb_finished b then None
         else if \<not> bb_counter b \<le> interval then None
         else if \<not> (bb_buffer b = [] \<or> comparator (bb_options b) key last_key_piece > 0)
         then None
         else
           (case (if bb_counter b < interval
                  then (shared_loop last_key_piece key
                          (min (length last_key_piece) (length key)) 0,
                        bb_restarts b, bb_counter b)
                  else (0, bb_restarts b @ [of_nat (length (bb_buffer b))], 0)) of
              (shared, restarts, counter) \<Rightarrow>
                (let non_shared = length key - shared;
                     buffer = bb_buffer b @ EncodeVarint32 (of_nat shared) @
                              EncodeVarint32 (of_nat non_shared) @
                              EncodeVarint32 (of_nat (length value)) @
                              take non_shared (drop shared key) @ value;
                     last_key = resize shared last_key_piece @
                                take non_shared (drop shared key)
                 in if last_key \<noteq> key then None
                    else Some (b\<lparr>bb_buffer := buffer, bb_restarts := restarts,
                                 bb_counter := counter + 1, bb_last_key := last_key\<rparr>))))"

text \<open>\<open>BlockBuilder::Finish\<close>: the builder afterwards and the slice it returns.\<close>

definition BlockBuilder_Finish :: "BlockBuilder \<Rightarrow> BlockBuilder \<times> bytes" where
  "BlockBuilder_Finish b =
     (let buffer1 = foldl (\<lambda>buffer r. buffer @ EncodeFixed32 r) (bb_buffer b) (bb_restarts b);
          buffer2 = buffer1 @ EncodeFixed32 (of_nat (length (bb_restarts b)))
      in (b\<lparr>bb_buffer := buffer2, bb_finished := True\<rparr>, buffer2))"

text \<open>A caller that feeds a sequence of pairs to \<open>Add\<close>, and the order it must keep.\<close>

fun AddAll :: "BlockBuilder \<Rightarrow> (bytes \<times> bytes) list \<Rightarrow> BlockBuilder option" where
  "AddAll b [] = Some b"
| "AddAll b ((key, value) # kvs) =
     (case BlockBuilder_Add b key value of
        None \<Rightarrow> None
      | Some b' \<Rightarrow> AddAll b' kvs)"


text \<open>
  The record that \<open>Add\<close> appends for a key that shares \<open>shared\<close> bytes with the key
  before it, the number of bytes that the loop of \<open>Add\<close> finds shared, and what the
  assertions of \<open>Add\<close> keep true of a builder between two calls.
\<close>

definition shared_with :: "bytes \<Rightarrow> bytes \<Rightarrow> nat" where
  "shared_with last_key key = shared_loop last_key key (min (length last_key) (length key)) 0"

definition record_bytes :: "nat \<Rightarrow> bytes \<Rightarrow> bytes \<Rightarrow> bytes" where
  "record_bytes shared key value =
     EncodeVarint32 (of_nat shared) @ EncodeVarint32 (of_nat (length key - shared)) @
     EncodeVarint32 (of_nat (length value)) @ drop shared key @ value"

definition bb_inv :: "BlockBuilder \<Rightarrow> bool" where
  "bb_inv b \<longleftrightarrow>
     \<not> bb_finished b \<and> 1 \<le> block_restart_interval (bb_options b) \<and>
     0 \<le> bb_counter b \<and> bb_counter b \<le> block_restart_interval (bb_options b) \<and>
     length (bb_last_key b) \<le> length (bb_buffer b)"

text \<open>
  Modelled from the spec: the reader of a block (\<open>table/block.cc\<close>) is not among the
  sources. The spec gives the layout of a record (three varint32 lengths, the unshared
  key bytes, the value) and of the trailer (the restart offsets and their number, four
  bytes each), and the claims say how a block is decoded: record by record, each key
  being the first \<open>shared\<close> bytes of the key before it followed by the unshared bytes.
  An entry keeps the offset of its record and its \<open>shared\<close> field.
\<close>

record Entry =
  e_offset :: nat
  e_shared :: nat
  e_key :: bytes
  e_value :: bytes

function DecodeEntries :: "nat \<Rightarrow> bytes \<Rightarrow> bytes \<Rightarrow> Entry list option" where
  "DecodeEntries off last_key p =
     (if p = [] then Some []
      else
        (case GetVarint32 p of
           None \<Rightarrow> None
         | Some (shared, p1) \<Rightarrow>
            (case GetVarint32 p1 of
               None \<Rightarrow> None
             | Some (non_shared, p2) \<Rightarrow>
                (case GetVarint32 p2 of
                   None \<Rightarrow> None
                 | Some (value_length, p3) \<Rightarrow>
                    if length last_key < unat shared \<or>
                       length p3 < unat non_shared + unat value_length
                    then None
                    else
                      (case DecodeEntries
                              (off + (length p - length p3) + unat non_shared + unat value_length)
                              (take (unat shared) last_key @ take (unat non_shared) p3)
                              (drop (unat non_shared + unat value_length) p3) of
                         None \<Rightarrow> None
                       | Some es \<Rightarrow>
                           Some (\<lparr> e_offset = off, e_shared = unat shared,
                                   e_key = take (unat shared) last_key @
                                           take (unat non_shared) p3,
                                   e_value = take (unat value_length)
                                               (drop (unat non_shared) p3) \<rparr> # es))))))"
  by pat_completeness auto
termination
proof (relation "measure (\<lambda>(off, last_key, p). length p)", goal_cases)
  case 1
  show ?case by simp
next
  case (2 off last_key p x2 shared p1 x2a non_shared p2 x2b value_length p3)
  then have "length p3 < length p"
    using GetVarint32_length [of p shared p1] GetVarint32_length [of p1 non_shared p2]
      GetVarint32_length [of p2 value_length p3]
    by simp
  then show ?case by simp
qed

declare DecodeEntries.simps [simp del]

definition NumRestarts :: "bytes \<Rightarrow> 32 word" where
  "NumRestarts block = DecodeFixed32 (drop (length block - 4) block)"

text \<open>The entries of a block and its restart array; \<open>None\<close> for a malformed block.\<close>

definition DecodeBlock :: "bytes \<Rightarrow> (Entry list \<times> 32 word list) option" where
  "DecodeBlock block =
     (if length block < 4 then None
      else
        (let n = unat (NumRestarts block) in
         if length block < 4 + 4 * n then None
         else
           (let restart_offset = length block - 4 - 4 * n in
            case DecodeEntries 0 [] (take restart_offset block) of
              None \<Rightarrow> None
            | Some es \<Rightarrow>
                Some (es, map (\<lambda>i. DecodeFixed32 (drop (restart_offset + 4 * i) block))
                            [0..<n]))))"

text \<open>
  The layout of a block: the entries that a builder with restart interval \<open>R\<close>, counter
  \<open>c\<close>, buffer length \<open>off\<close> and last key \<open>last_key\<close> writes for a sequence of pairs,
  each with the flag that it starts a new restart point; the bytes of these entries and
  the restart offsets they add.
\<close>

fun layout :: "int \<Rightarrow> int \<Rightarrow> nat \<Rightarrow> bytes \<Rightarrow> (bytes \<times> bytes) list \<Rightarrow> (bool \<times> Entry) list" where
  "layout R c off last_key [] = []"
| "layout R c off last_key ((k, v) # kvs) =
     (if c < R
      then (False, \<lparr> e_offset = off, e_shared = shared_with last_key k, e_key = k, e_value = v \<rparr>) #
           layout R (c + 1) (off + length (record_bytes (shared_with last_key k) k v)) k kvs
      else (True, \<lparr> e_offset = off, e_shared = 0, e_key = k, e_value = v \<rparr>) #
           layout R 1 (off + length (record_bytes 0 k v)) k kvs)"

definition entry_bytes :: "bool \<times> Entry \<Rightarrow> bytes" where
  "entry_bytes x = record_bytes (e_shared (snd x)) (e_key (snd x)) (e_value (snd x))"

definition layout_bytes :: "(bool \<times> Entry) list \<Rightarrow> bytes" where
  "layout_bytes xs = concat (map entry_bytes xs)"

definition layout_restarts :: "(bool \<times> Entry) list \<Rightarrow> 32 word list" where
  "layout_restarts xs = map (\<lambda>x. of_nat (e_offset (snd x))) (filter fst xs)"

text \<open>
  The example of the spec: the keys \<open>abc\<close>, \<open>abd\<close>, \<open>abe\<close> with restart interval 2.
\<close>

definition options_example :: "int \<Rightarrow> Options" where
  "options_example R = \<lparr> block_restart_interval = R, comparator = BytewiseCompare \<rparr>"

definition kvs_example :: "(bytes \<times> bytes) list" where
  "kvs_example = [([97, 98, 99], [1]), ([97, 98, 100], [2]), ([97, 98, 101], [3])]"

definition fresh_example :: "int \<Rightarrow> BlockBuilder" where
  "fresh_example R = \<lparr> bb_options = options_example R, bb_buffer = [], bb_restarts = [0],
                       bb_counter = 0, bb_finished = False, bb_last_key = [] \<rparr>"

definition built_example :: BlockBuilder where
  "built_example = \<lparr> bb_options = options_example 2,
                     bb_buffer = [0, 3, 1, 97, 98, 99, 1, 2, 1, 1, 100, 2, 0, 3, 1, 97, 98, 101, 3],
                     bb_restarts = [0, 12], bb_counter = 1, bb_finished = False,
                     bb_last_key = [97, 98, 101] \<rparr>"

definition block_example_bytes :: bytes where
  "block_example_bytes = [0, 3, 1, 97, 98, 99, 1, 2, 1, 1, 100, 2, 0, 3, 1, 97, 98, 101, 3,
                          0, 0, 0, 0, 12, 0, 0, 0, 2, 0, 0, 0]"

section \<open>LRU cache shard (util/cache.cc)\<close>

text \<open>
  An entry is a heap object at an address. \<open>h_value\<close>, \<open>h_deleter\<close>, \<open>h_charge\<close>,
  \<open>h_key\<close>, \<open>h_refs\<close> and \<open>h_hash\<close> are the fields \<open>value\<close>, \<open>deleter\<close> (a function
  pointer, here its name), \<open>charge\<close>, \<open>key_data\<close> with \<open>key_length\<close>, \<open>refs\<close> and
  \<open>hash\<close> of \<open>LRUHandle\<close>. The links \<open>next\<close>, \<open>prev\<close> and \<open>next_hash\<close> are
  kept as the structures they form: the circular list of \<open>lru_\<close> as the list of its
  entries from \<open>lru_.next\<close> (the oldest) to \<open>lru_.prev\<close> (the newest), and the chains of
  the \<open>HandleTable\<close> as the map from a hash and key to the entry that \<open>FindPointer\<close>
  finds for them.
\<close>

type_synonym addr = nat

record LRUHandle =
  h_value :: nat
  h_deleter :: nat
  h_charge :: "64 word"
  h_key :: bytes
  h_refs :: "32 word"
  h_hash :: "32 word"

text \<open>
  A shard: \<open>capacity_\<close>, \<open>usage_\<close>, \<open>lru_\<close> and \<open>table_\<close>, together with the heap of
  the entries that were allocated and not freed, the next address of \<open>malloc\<close> (no
  address is handed out twice) and the calls of deleters so far, each with the address
  of its entry, the deleter, the key and the value.
\<close>

record LRUCache =
  c_capacity :: "64 word"
  c_usage :: "64 word"
  c_lru :: "addr list"
  c_table :: "(32 word \<times> bytes) \<rightharpoonup> addr"
  c_heap :: "addr \<rightharpoonup> LRUHandle"
  c_next :: addr
  c_deleted :: "(addr \<times> nat \<times> bytes \<times> nat) list"

text \<open>\<open>LRUCache::LRUCache\<close> followed by \<open>SetCapacity\<close>.\<close>

definition LRUCache_new :: "64 word \<Rightarrow> LRUCache" where
  "LRUCache_new capacity =
     \<lparr> c_capacity = capacity, c_usage = 0, c_lru = [], c_table = Map.empty,
       c_heap = Map.empty, c_next = 0, c_deleted = [] \<rparr>"

text \<open>
  \<open>LRUCache::Unref\<close>. \<open>None\<close>: the entry was freed before, or the assertion
  \<open>refs > 0\<close> fails.
\<close>

definition Unref :: "LRUCache \<Rightarrow> addr \<Rightarrow> LRUCache option" where
  "Unref c e =
     (case c_heap c e of
        None \<Rightarrow> None
      | Some h \<Rightarrow>
          if \<not> h_refs h > 0 then None
          else
            (let refs = h_refs h - 1 in
             if refs \<le> 0
             then Some (c\<lparr>c_usage := c_usage c - h_charge h,
                          c_deleted := c_deleted c @ [(e, h_deleter h, h_key h, h_value h)],
                          c_heap := (c_heap c)(e := None)\<rparr>)
             else Some (c\<lparr>c_heap := (c_heap c)(e \<mapsto> h\<lparr>h_refs := refs\<rparr>)\<rparr>)))"

text \<open>
  \<open>LRU_Remove\<close> unlinks an entry of the list (\<open>None\<close>: the entry is not in the list,
  and its links are stale); \<open>LRU_Append\<close> links an entry in front of \<open>lru_\<close>, as the
  newest.
\<close>

definition LRU_Remove :: "LRUCache \<Rightarrow> addr \<Rightarrow> LRUCache option" where
  "LRU_Remove c e = (if e \<in> set (c_lru c) then Some (c\<lparr>c_lru := remove1 e (c_lru c)\<rparr>) else None)"

definition LRU_Append :: "LRUCache \<Rightarrow> addr \<Rightarrow> LRUCache" where
  "LRU_Append c e = c\<lparr>c_lru := c_lru c @ [e]\<rparr>"

text \<open>\<open>LRUCache::Lookup\<close>: the shard afterwards and the handle (\<open>None\<close> for \<open>NULL\<close>).\<close>

definition Lookup :: "LRUCache \<Rightarrow> bytes \<Rightarrow> 32 word \<Rightarrow> (LRUCache \<times> addr option) option" where
  "Lookup c key hash =
     (case c_table c (hash, key) of
        None \<Rightarrow> Some (c, None)
      | Some e \<Rightarrow>
         (case c_heap c e of
            None \<Rightarrow> None
          | Some h \<Rightarrow>
             (let c1 = c\<lparr>c_heap := (c_heap c)(e \<mapsto> h\<lparr>h_refs := h_refs h + 1\<rparr>)\<rparr> in
              case LRU_Remove c1 e of
                None \<Rightarrow> None
              | Some c2 \<Rightarrow> Some (LRU_Append c2 e, Some e))))"

definition Release :: "LRUCache \<Rightarrow> addr \<Rightarrow> LRUCache option" where
  "Release c handle = Unref c handle"

text \<open>\<open>Cache::Value\<close>: the value of a handle that was not freed.\<close>

definition Value :: "LRUCache \<Rightarrow> addr \<Rightarrow> nat option" where
  "Value c handle = (case c_heap c handle of None \<Rightarrow> None | Some h \<Rightarrow> Some (h_value h))"

text \<open>One round of the loop at the end of \<open>Insert\<close>, for the oldest entry of the list.\<close>

definition evict_oldest :: "LRUCache \<Rightarrow> LRUCache option" where
  "evict_oldest c =
     (let old = hd (c_lru c) in
      case LRU_Remove c old of
        None \<Rightarrow> None
      | Some c1 \<Rightarrow>
         (case c_heap c1 old of
            None \<Rightarrow> None
          | Some h \<Rightarrow>
              Unref (c1\<lparr>c_table := (c_table c1)((h_hash h, h_key h) := None)\<rparr>) old))"

lemma c_lru_Unref: "Unref c e = Some c' \<Longrightarrow> c_lru c' = c_lru c"
  by (auto simp: Unref_def Let_def split: option.splits if_splits)

lemma length_evict_oldest:
  "c_lru c \<noteq> [] \<Longrightarrow> evict_oldest c = Some c' \<Longrightarrow> length (c_lru c') < length (c_lru c)"
  by (cases "c_lru c")
    (auto simp: evict_oldest_def LRU_Remove_def Let_def dest!: c_lru_Unref split: option.splits)

function evict :: "LRUCache \<Rightarrow> LRUCache option" where
  "evict c =
     (if c_usage c > c_capacity c \<and> c_lru c \<noteq> []
      then (case evict_oldest c of None \<Rightarrow> None | Some c' \<Rightarrow> evict c')
      else Some c)"
  by pat_completeness auto
termination
  by (relation "measure (\<lambda>c. length (c_lru c))") (auto simp: length_evict_oldest)

declare evict.simps [simp del]

text \<open>\<open>LRUCache::Insert\<close>: the shard afterwards and the handle of the new entry.\<close>

definition Insert ::
  "LRUCache \<Rightarrow> bytes \<Rightarrow> 32 word \<Rightarrow> nat \<Rightarrow> 64 word \<Rightarrow> nat \<Rightarrow> (LRUCache \<times> addr) option" where
  "Insert c key hash value charge deleter =
     (let e = c_next c;
          h = \<lparr> h_value = value, h_deleter = deleter, h_charge = charge, h_key = key,
                h_refs = 2, h_hash = hash \<rparr>;
          c1 = LRU_Append (c\<lparr>c_heap := (c_heap c)(e \<mapsto> h), c_next := Suc e\<rparr>) e;
          c2 = c1\<lparr>c_usage := c_usage c1 + charge\<rparr>;
          old = c_table c2 (hash, key);
          c3 = c2\<lparr>c_table := (c_table c2)((hash, key) \<mapsto> e)\<rparr>
      in case (case old of
                 None \<Rightarrow> Some c3
               | Some old_e \<Rightarrow>
                  (case LRU_Remove c3 old_e of
                     None \<Rightarrow> None
                   | Some c4 \<Rightarrow> Unref c4 old_e)) of
           None \<Rightarrow> None
         | Some c5 \<Rightarrow>
            (case evict c5 of None \<Rightarrow> None | Some c6 \<Rightarrow> Some (c6, e)))"

text \<open>\<open>LRUCache::Erase\<close>.\<close>

definition Erase :: "LRUCache \<Rightarrow> bytes \<Rightarrow> 32 word \<Rightarrow> LRUCache option" where
  "Erase c key hash =
     (case c_table c (hash, key) of
        None \<Rightarrow> Some c
      | Some e \<Rightarrow>
         (case LRU_Remove (c\<lparr>c_table := (c_table c)((hash, key) := None)\<rparr>) e of
            None \<Rightarrow> None
          | Some c1 \<Rightarrow> Unref c1 e))"

text \<open>The calls a client makes on a shard, and a run of them.\<close>

datatype Op =
  OpInsert bytes "32 word" nat "64 word" nat
| OpLookup bytes "32 word"
| OpRelease addr
| OpErase bytes "32 word"

fun step :: "LRUCache \<Rightarrow> Op \<Rightarrow> LRUCache option" where
  "step c (OpInsert key hash value charge deleter) =
     (case Insert c key hash value charge deleter of None \<Rightarrow> None | Some (c', e) \<Rightarrow> Some c')"
| "step c (OpLookup key hash) =
     (case Lookup c key hash of None \<Rightarrow> None | Some (c', e) \<Rightarrow> Some c')"
| "step c (OpRelease handle) = Release c handle"
| "step c (OpErase key hash) = Erase c key hash"

fun run :: "LRUCache \<Rightarrow> Op list \<Rightarrow> LRUCache option" where
  "run c [] = Some c"
| "run c (op # ops) = (case step c op of None \<Rightarrow> None | Some c' \<Rightarrow> run c' ops)"

text \<open>
  The calls of deleters on one entry, and an entry that is neither in the list nor in
  the index (its address was handed out before).
\<close>

definition deleter_calls :: "LRUCache \<Rightarrow> addr \<Rightarrow> (addr \<times> nat \<times> bytes \<times> nat) list" where
  "deleter_calls c a = filter (\<lambda>x. fst x = a) (c_deleted c)"

definition detached :: "LRUCache \<Rightarrow> addr \<Rightarrow> bool" where
  "detached c a \<longleftrightarrow> a \<notin> set (c_lru c) \<and> a \<notin> ran (c_table c) \<and> a < c_next c"

text \<open>
  For entries \<open>as\<close> of a shard, in their order: the sum of the charges, and the calls of
  deleters, of those among them that only the cache refers to (\<open>refs = 1\<close>). These are
  the entries that \<open>Unref\<close> frees.
\<close>

definition freed_charge :: "LRUCache \<Rightarrow> addr list \<Rightarrow> 64 word" where
  "freed_charge c as =
     sum_list (map (\<lambda>a. case c_heap c a of
                           None \<Rightarrow> 0
                         | Some h \<Rightarrow> if h_refs h = 1 then h_charge h else 0) as)"

definition freed_calls :: "LRUCache \<Rightarrow> addr list \<Rightarrow> (addr \<times> nat \<times> bytes \<times> nat) list" where
  "freed_calls c as =
     concat (map (\<lambda>a. case c_heap c a of
                         None \<Rightarrow> []
                       | Some h \<Rightarrow> if h_refs h = 1 then [(a, h_deleter h, h_key h, h_value h)]
                                   else []) as)"

text \<open>
  Examples: an entry of charge 1 with deleter 7; a shard of capacity 2 with three
  entries, as the third \<open>Insert\<close> leaves it in front of its loop: the oldest entry with
  a handle outstanding, the second with none, and the new entry; a shard with one entry
  whose handle is outstanding.
\<close>

definition entry_example :: "nat \<Rightarrow> bytes \<Rightarrow> 32 word \<Rightarrow> 32 word \<Rightarrow> LRUHandle" where
  "entry_example v key hash refs =
     \<lparr> h_value = v, h_deleter = 7, h_charge = 1, h_key = key, h_refs = refs, h_hash = hash \<rparr>"


definition cache_one :: LRUCache where
  "cache_one =
     \<lparr> c_capacity = 10, c_usage = 1, c_lru = [0], c_table = [(1, [1]) \<mapsto> 0],
       c_heap = [0 \<mapsto> entry_example 10 [1] 1 2], c_next = 1, c_deleted = [] \<rparr>"

section \<open>Properties of the coding primitives\<close>

lemma length_EncodeFixed: "length (EncodeFixed k v) = k"
  by (induction k arbitrary: v) auto

lemma DecodeFixed_EncodeFixed: "DecodeFixed (EncodeFixed k v) = v mod 256 ^ k"
proof (induction k arbitrary: v)
  case 0
  then show ?case by simp
next
  case (Suc k)
  have "unat (of_nat (v mod 256) :: byte) = v mod 256"
    by (simp add: unat_of_nat)
  then show ?case
    using Suc by (simp add: mod_mult2_eq)
qed

lemma DecodeFixed_bound: "DecodeFixed p < 256 ^ length p"
proof (induction p)
  case Nil
  then show ?case by simp
next
  case (Cons b p)
  have "unat b < 256" using unsigned_less [of b] by simp
  with Cons show ?case by simp
qed

lemma GetVarintPtr_numeral:
  "GetVarintPtr (numeral k) [] = None"
  "GetVarintPtr (numeral k) (b # p) =
     (if b AND 128 \<noteq> 0
      then (case GetVarintPtr (pred_numeral k) p of
              None \<Rightarrow> None
            | Some (v, q) \<Rightarrow> Some (unat (b AND 127) + 128 * v, q))
      else Some (unat b, p))"
  by (simp_all only: numeral_eq_Suc GetVarintPtr.simps)

lemma EncodeFixed_numeral:
  "EncodeFixed (numeral k) v = of_nat (v mod 256) # EncodeFixed (pred_numeral k) (v div 256)"
  by (simp only: numeral_eq_Suc EncodeFixed.simps)

lemma magic_of_eq:
  "magic_of lo hi = of_nat (unat lo + 2 ^ 32 * unat hi)"
proof -
  have "push_bit 32 (ucast hi :: 64 word) OR ucast lo = push_bit 32 (ucast hi) + ucast lo"
    by (rule disjunctive_add [symmetric]) (auto simp: bit_simps dest: bit_imp_le_length)
  then show ?thesis
    by (simp add: magic_of_def push_bit_eq_mult)
qed

lemma DecodeFixed_append:
  "DecodeFixed (p @ q) = DecodeFixed p + 256 ^ length p * DecodeFixed q"
  by (induction p) (auto simp: algebra_simps)

lemma magic_of_DecodeFixed64:
  assumes "off + 8 \<le> length input"
  shows "magic_of (DecodeFixed32 (drop off input)) (DecodeFixed32 (drop (off + 4) input))
         = DecodeFixed64 (drop off input)"
proof -
  let ?p = "take 4 (drop off input)" and ?q = "take 4 (drop (off + 4) input)"
  have l: "length ?p = 4" "length ?q = 4" using assms by auto
  have pq: "take 8 (drop off input) = ?p @ ?q"
    by (metis (no_types, lifting) add.commute drop_drop take_add numeral_Bit0 )
  have b: "DecodeFixed ?p < 2 ^ 32" "DecodeFixed ?q < 2 ^ 32"
    using DecodeFixed_bound [of ?p] DecodeFixed_bound [of ?q] l by auto
  have "unat (of_nat (DecodeFixed ?p) :: 32 word) = DecodeFixed ?p"
       "unat (of_nat (DecodeFixed ?q) :: 32 word) = DecodeFixed ?q"
    using b by (simp_all add: unat_of_nat)
  then show ?thesis
    unfolding magic_of_eq DecodeFixed32_def DecodeFixed64_def pq DecodeFixed_append
    using l by simp
qed

lemma byte_and_127: "unat ((x :: byte) AND 127) = unat x mod 128"
proof -
  have "x AND 127 = take_bit 7 x"
    by (simp add: take_bit_eq_mask mask_eq_exp_minus_1)
  then show ?thesis
    by (simp add: unsigned_take_bit_eq take_bit_eq_mod unat_mod)
qed

lemma byte_and_128: "(x :: byte) AND 128 = 0 \<longleftrightarrow> unat x < 128"
proof -
  have "x AND 2 ^ 7 = 0 \<longleftrightarrow> \<not> bit x 7"
    by (rule and_exp_eq_0_iff_not_bit)
  moreover have "bit x 7 \<longleftrightarrow> bit (unat x) 7"
    by (simp add: bit_simps)
  moreover have "bit (unat x) 7 \<longleftrightarrow> odd (unat x div 128)"
    by (simp add: bit_iff_odd)
  moreover have "unat x < 256"
    using unsigned_less [of x] by simp
  then have "unat x div 128 = (if unat x < 128 then 0 else 1)"
    by auto
  ultimately show ?thesis
    by simp
qed

lemma unat_byte_of_nat: "n < 256 \<Longrightarrow> unat (of_nat n :: byte) = n"
  by (simp add: unat_of_nat)

lemma GetVarintPtr_EncodeVarint:
  "n < 128 ^ k \<Longrightarrow> 0 < k \<Longrightarrow> GetVarintPtr k (EncodeVarint n @ q) = Some (n, q)"
proof (induction k arbitrary: n)
  case 0
  then show ?case by simp
next
  case (Suc k)
  show ?case
  proof (cases "n < 128")
    case True
    then show ?thesis
      by (simp add: EncodeVarint.simps [of n] byte_and_128 unat_byte_of_nat)
  next
    case False
    have "n div 128 < 128 ^ k"
      using Suc.prems by (simp add: less_mult_imp_div_less mult.commute)
    moreover have "0 < k"
      using False Suc.prems by (cases k) auto
    ultimately have ih: "GetVarintPtr k (EncodeVarint (n div 128) @ q) = Some (n div 128, q)"
      by (rule Suc.IH)
    have b: "unat (of_nat (n mod 128) + 128 :: byte) = n mod 128 + 128"
      using unat_byte_of_nat [of "n mod 128 + 128"] by simp
    show ?thesis
      using False ih
      by (simp add: EncodeVarint.simps [of n] byte_and_128 byte_and_127 b)
  qed
qed

lemma GetVarint32_EncodeVarint32: "GetVarint32 (EncodeVarint32 w @ q) = Some (w, q)"
proof -
  have "unat w < 2 ^ 32"
    using unsigned_less [of w] by simp
  then have "unat w < 128 ^ 5"
    by simp
  then show ?thesis
    by (simp add: GetVarint32_def EncodeVarint32_def GetVarintPtr_EncodeVarint)
qed

lemma length_EncodeVarint_pos: "0 < length (EncodeVarint n)"
  by (subst EncodeVarint.simps) simp

lemma length_EncodeVarint_le: "n < 128 ^ k \<Longrightarrow> 0 < k \<Longrightarrow> length (EncodeVarint n) \<le> k"
proof (induction k arbitrary: n)
  case 0
  then show ?case by simp
next
  case (Suc k)
  show ?case
  proof (cases "n < 128")
    case True
    then show ?thesis by (simp add: EncodeVarint.simps [of n])
  next
    case False
    have "n div 128 < 128 ^ k"
      using Suc.prems by (simp add: less_mult_imp_div_less mult.commute)
    moreover have "0 < k"
      using False Suc.prems by (cases k) auto
    ultimately have "length (EncodeVarint (n div 128)) \<le> k"
      by (rule Suc.IH)
    then show ?thesis
      using False by (simp add: EncodeVarint.simps [of n])
  qed
qed

section \<open>The order of internal keys\<close>

lemma nat_split_less:
  fixes a b :: nat
  shows "a < b \<longleftrightarrow>
         a div 256 < b div 256 \<or> (a div 256 = b div 256 \<and> a mod 256 < b mod 256)"
proof -
  obtain p r where a: "a = p * 256 + r" "r < 256" "p = a div 256" "r = a mod 256"
    by (metis div_mult_mod_eq mod_less_divisor zero_less_numeral)
  obtain q s where b: "b = q * 256 + s" "s < 256" "q = b div 256" "s = b mod 256"
    by (metis div_mult_mod_eq mod_less_divisor zero_less_numeral)
  have "a < b \<longleftrightarrow> p < q \<or> (p = q \<and> r < s)"
    using a(1,2) b(1,2) by arith
  then show ?thesis using a(3,4) b(3,4) by simp
qed

lemma unat_low_byte: "unat (ucast ((z::64 word) AND 255) :: 8 word) = unat z mod 256"
proof -
  have "z AND 255 = take_bit 8 z"
    by (simp add: take_bit_eq_mask mask_eq_exp_minus_1)
  then show ?thesis
    by (simp add: unsigned_ucast_eq unsigned_take_bit_eq take_bit_eq_mod unat_mod)
qed

lemma word_tag_less:
  fixes x y :: "64 word"
  shows "x < y \<longleftrightarrow>
         drop_bit 8 x < drop_bit 8 y \<or>
         (drop_bit 8 x = drop_bit 8 y \<and> (ucast (x AND 255) :: 8 word) < ucast (y AND 255))"
proof -
  have a: "\<And>z :: 64 word. unat (drop_bit 8 z) = unat z div 256"
    by (simp add: drop_bit_eq_div unat_div)
  show ?thesis
    unfolding word_less_nat_alt word_unat_eq_iff a unat_low_byte
    by (rule nat_split_less)
qed

text \<open>
  C1 (as amended). For internal keys \<open>a\<close> and \<open>b\<close> (each at least its eight tag bytes):
  when the user comparator finds the user keys equal, \<open>Compare(a, b) < 0\<close> holds exactly
  when \<open>sequence(a) > sequence(b)\<close>, or the sequences are equal and \<open>type(a) > type(b)\<close>;
  when it finds them unequal, \<open>Compare\<close> returns the user comparator's own result.
\<close>

theorem InternalKeyComparator_Compare_order:
  assumes "ExtractUserKey a = Some ua" and "ExtractUserKey b = Some ub"
  shows "(ucmp ua ub = 0 \<longrightarrow>
            (\<exists>r. InternalKeyComparator_Compare ucmp a b = Some r \<and>
                 (r < 0 \<longleftrightarrow>
                    sequence_of a > sequence_of b \<or>
                    (sequence_of a = sequence_of b \<and> type_of a > type_of b)))) \<and>
         (ucmp ua ub \<noteq> 0 \<longrightarrow>
            InternalKeyComparator_Compare ucmp a b = Some (ucmp ua ub))"
proof (intro conjI impI)
  assume eq: "ucmp ua ub = 0"
  have lt: "tag_of b < tag_of a \<longleftrightarrow>
            sequence_of a > sequence_of b \<or>
            (sequence_of a = sequence_of b \<and> type_of a > type_of b)"
    unfolding sequence_of_def type_of_def
    using word_tag_less [of "tag_of b" "tag_of a"] by auto
  show "\<exists>r. InternalKeyComparator_Compare ucmp a b = Some r \<and>
            (r < 0 \<longleftrightarrow>
               sequence_of a > sequence_of b \<or>
               (sequence_of a = sequence_of b \<and> type_of a > type_of b))"
  proof (cases "tag_of b < tag_of a")
    case True
    then have "InternalKeyComparator_Compare ucmp a b = Some (- 1)"
      using assms eq by (simp add: InternalKeyComparator_Compare_def)
    with True lt show ?thesis by simp
  next
    case False
    then have "InternalKeyComparator_Compare ucmp a b =
               Some (if tag_of a < tag_of b then 1 else 0)"
      using assms eq by (simp add: InternalKeyComparator_Compare_def)
    with False lt show ?thesis by simp
  qed
next
  assume "ucmp ua ub \<noteq> 0"
  then show "InternalKeyComparator_Compare ucmp a b = Some (ucmp ua ub)"
    using assms by (simp add: InternalKeyComparator_Compare_def)
qed

text \<open>
  Two versions of the user key \<open>k\<close> at sequence 5, a value (type 1) and a deletion
  (type 0): the value sorts first although the sequence numbers are equal.
\<close>

theorem InternalKeyComparator_Compare_equal_sequence:
  "InternalKeyComparator_Compare BytewiseCompare
     [107, 1, 5, 0, 0, 0, 0, 0, 0] [107, 0, 5, 0, 0, 0, 0, 0, 0] = Some (- 1) \<and>
   ExtractUserKey [107, 1, 5, 0, 0, 0, 0, 0, 0] = Some [107] \<and>
   ExtractUserKey [107, 0, 5, 0, 0, 0, 0, 0, 0] = Some [107] \<and>
   BytewiseCompare [107] [107] = 0 \<and>
   sequence_of [107, 1, 5, 0, 0, 0, 0, 0, 0] = 5 \<and>
   sequence_of [107, 0, 5, 0, 0, 0, 0, 0, 0] = 5"
  by code_simp

theorem InternalKeyComparator_Compare_order_witness:
  "ExtractUserKey [107, 1, 9, 0, 0, 0, 0, 0, 0] = Some [107] \<and>
   ExtractUserKey [107, 1, 5, 0, 0, 0, 0, 0, 0] = Some [107] \<and>
   ExtractUserKey [108, 1, 9, 0, 0, 0, 0, 0, 0] = Some [108] \<and>
   BytewiseCompare [107] [107] = 0 \<and>
   (\<exists>r. InternalKeyComparator_Compare BytewiseCompare
          [107, 1, 9, 0, 0, 0, 0, 0, 0] [107, 1, 5, 0, 0, 0, 0, 0, 0] = Some r \<and>
        (r < 0 \<longleftrightarrow>
           sequence_of [107, 1, 9, 0, 0, 0, 0, 0, 0] > sequence_of [107, 1, 5, 0, 0, 0, 0, 0, 0] \<or>
           (sequence_of [107, 1, 9, 0, 0, 0, 0, 0, 0] = sequence_of [107, 1, 5, 0, 0, 0, 0, 0, 0] \<and>
            type_of [107, 1, 9, 0, 0, 0, 0, 0, 0] > type_of [107, 1, 5, 0, 0, 0, 0, 0, 0]))) \<and>
   BytewiseCompare [107] [108] = - 1 \<and>
   InternalKeyComparator_Compare BytewiseCompare
     [107, 1, 9, 0, 0, 0, 0, 0, 0] [108, 1, 9, 0, 0, 0, 0, 0, 0] = Some (- 1)"
proof -
  have a: "ExtractUserKey [107, 1, 9, 0, 0, 0, 0, 0, 0] = Some [107]"
    and b: "ExtractUserKey [107, 1, 5, 0, 0, 0, 0, 0, 0] = Some [107]"
    and c: "ExtractUserKey [108, 1, 9, 0, 0, 0, 0, 0, 0] = Some [108]"
    by (simp_all add: ExtractUserKey_def)
  have e: "BytewiseCompare [107] [107] = 0" and n: "BytewiseCompare [107] [108] = - 1"
    by simp_all
  have n0: "BytewiseCompare [107] [108] \<noteq> 0"
    by simp
  note t1 = InternalKeyComparator_Compare_order
              [OF a b, of BytewiseCompare, THEN conjunct1, rule_format, OF e]
  note t2 = InternalKeyComparator_Compare_order
              [OF a c, of BytewiseCompare, THEN conjunct2, rule_format, OF n0, unfolded n]
  from a b c e n t1 t2 show ?thesis
    by blast
qed

section \<open>The layout of a lookup key\<close>

lemma PackSequenceAndType_seek:
  "s \<le> kMaxSequenceNumber \<Longrightarrow>
   PackSequenceAndType s kValueTypeForSeek = Some (push_bit 8 s OR ucast kValueTypeForSeek)"
  by (simp add: PackSequenceAndType_def)

lemma byte_le_1: "(t :: 8 word) \<le> 1 \<Longrightarrow> t = 0 \<or> t = 1"
  by (metis word_le_less_eq word_less_1)

text \<open>
  C6 (as amended). For every user key \<open>u\<close> and sequence number \<open>s\<close> (at most the maximal
  sequence number, as the constructor asserts), \<open>LookupKey(u, s)\<close> is exactly: the
  varint32 of \<open>len(u) + 8\<close>, the bytes of \<open>u\<close>, and the fixed eight bytes of
  \<open>(s << 8) | kValueTypeForSeek\<close>. \<open>kValueTypeForSeek\<close> is the largest type that
  \<open>PackSequenceAndType\<close> accepts, so this tag is the largest one of sequence \<open>s\<close>.
\<close>

theorem LookupKey_layout:
  assumes "s \<le> kMaxSequenceNumber"
  shows "LookupKey_new u s =
           Some \<lparr> lk_rep = EncodeVarint32 (of_nat (length u + 8)) @ u @
                           EncodeFixed64 (push_bit 8 s OR ucast kValueTypeForSeek),
                  lk_kstart = length (EncodeVarint32 (of_nat (length u + 8))) \<rparr> \<and>
         (\<forall>t tag. PackSequenceAndType s t = Some tag \<longrightarrow>
            t \<le> kValueTypeForSeek \<and> tag \<le> push_bit 8 s OR ucast kValueTypeForSeek)"
proof (intro conjI allI impI)
  show "LookupKey_new u s =
           Some \<lparr> lk_rep = EncodeVarint32 (of_nat (length u + 8)) @ u @
                           EncodeFixed64 (push_bit 8 s OR ucast kValueTypeForSeek),
                  lk_kstart = length (EncodeVarint32 (of_nat (length u + 8))) \<rparr>"
    using PackSequenceAndType_seek [OF assms] by (simp add: LookupKey_new_def Let_def)
next
  fix t tag
  assume p: "PackSequenceAndType s t = Some tag"
  then show "t \<le> kValueTypeForSeek"
    by (simp add: PackSequenceAndType_def split: if_splits)
  then have "t = 0 \<or> t = 1"
    by (simp add: kValueTypeForSeek_def kTypeValue_def byte_le_1)
  moreover have "tag = push_bit 8 s OR ucast t"
    using p by (auto simp: PackSequenceAndType_def split: if_splits)
  ultimately show "tag \<le> push_bit 8 s OR ucast kValueTypeForSeek"
    by (auto simp: kValueTypeForSeek_def kTypeValue_def le_word_or2)
qed

text \<open>
  The lookup key of \<open>k\<close> at sequence 7 carries the type byte 1, while the deletion type 0
  is accepted for the same sequence and is smaller.
\<close>

theorem LookupKey_seek_type_not_smallest:
  "LookupKey_new [107] 7 =
     Some \<lparr> lk_rep = [9, 107, 1, 7, 0, 0, 0, 0, 0, 0], lk_kstart = 1 \<rparr> \<and>
   PackSequenceAndType 7 kTypeDeletion = Some 1792 \<and>
   PackSequenceAndType 7 kValueTypeForSeek = Some 1793 \<and>
   kTypeDeletion < kValueTypeForSeek"
  by code_simp

theorem LookupKey_layout_witness:
  "(7 :: 64 word) \<le> kMaxSequenceNumber \<and>
   LookupKey_new [107] 7 =
     Some \<lparr> lk_rep = [9, 107, 1, 7, 0, 0, 0, 0, 0, 0], lk_kstart = 1 \<rparr>"
proof -
  have h: "(7 :: 64 word) \<le> kMaxSequenceNumber"
    by (simp add: kMaxSequenceNumber_def)
  have v: "EncodeVarint32 (of_nat (length [107 :: byte] + 8)) = [9]"
    by code_simp
  have f: "EncodeFixed64 (push_bit 8 7 OR ucast kValueTypeForSeek) = [1, 7, 0, 0, 0, 0, 0, 0]"
    by code_simp
  note t = LookupKey_layout [OF h, of "[107]", THEN conjunct1, unfolded v f]
  from h t show ?thesis
    by simp
qed

section \<open>The footer\<close>

lemma kEncodedLength_48: "kEncodedLength = 48"
  by (simp add: kEncodedLength_def kMaxEncodedLength_def)

lemma Footer_DecodeFrom_reads:
  assumes "kEncodedLength \<le> length input"
  shows "read_fixed32 input (kEncodedLength - 8) =
           Some (DecodeFixed32 (drop (kEncodedLength - 8) input))"
    and "read_fixed32 input (kEncodedLength - 8 + 4) =
           Some (DecodeFixed32 (drop (kEncodedLength - 8 + 4) input))"
  using assms by (simp_all add: read_fixed32_def kEncodedLength_48)

text \<open>
  C10. \<open>Footer::DecodeFrom\<close> reads the magic number at the offset \<open>kEncodedLength - 8\<close>
  without a test of the size of the input: a read leaves the input exactly when the
  input is shorter than the 48 bytes of the footer.
\<close>

theorem Footer_DecodeFrom_in_bounds:
  "(Footer_DecodeFrom f input = None) = (length input < kEncodedLength) \<and> kEncodedLength = 48"
proof (cases "kEncodedLength \<le> length input")
  case True
  then show ?thesis
    using Footer_DecodeFrom_reads [OF True]
    by (simp add: Footer_DecodeFrom_def Let_def kEncodedLength_48 split: prod.splits)
next
  case False
  then have "read_fixed32 input (kEncodedLength - 8) = None \<or>
             read_fixed32 input (kEncodedLength - 8 + 4) = None"
    by (simp add: read_fixed32_def kEncodedLength_48)
  with False show ?thesis
    by (auto simp: Footer_DecodeFrom_def Let_def kEncodedLength_48 split: option.splits)
qed

theorem Footer_DecodeFrom_in_bounds_witness:
  "Footer_DecodeFrom empty_footer (take 47 footer_bytes) = None \<and>
   length (take 47 footer_bytes) < kEncodedLength \<and>
   Footer_DecodeFrom empty_footer footer_bytes \<noteq> None \<and>
   \<not> length footer_bytes < kEncodedLength"
proof -
  have a: "length (take 47 footer_bytes) < kEncodedLength"
    by (simp add: kEncodedLength_48 footer_bytes_def)
  have b: "\<not> length footer_bytes < kEncodedLength"
    by (simp add: kEncodedLength_48 footer_bytes_def)
  from a b Footer_DecodeFrom_in_bounds [of empty_footer "take 47 footer_bytes"]
    Footer_DecodeFrom_in_bounds [of empty_footer footer_bytes]
  show ?thesis
    by blast
qed

text \<open>
  C7. On an input that holds the 48 bytes of the footer, \<open>Footer::DecodeFrom\<close> looks at
  the eight magic bytes at the end of that region first. When they are not the magic
  number the result is the corruption error, with the footer and the input as they
  were: no handle was parsed. When they are, the metaindex handle is decoded, then the
  index handle from what the first left of the input, and the first failure is the
  result.
\<close>

theorem Footer_DecodeFrom_magic_first:
  assumes "kEncodedLength \<le> length input"
  shows "(DecodeFixed64 (drop (kEncodedLength - 8) input) \<noteq> kTableMagicNumber \<longrightarrow>
            Footer_DecodeFrom f input =
              Some (Corruption ''not an sstable (bad magic number)'', f, input)) \<and>
         (DecodeFixed64 (drop (kEncodedLength - 8) input) = kTableMagicNumber \<longrightarrow>
            Footer_DecodeFrom f input =
              Some (case BlockHandle_DecodeFrom (metaindex_handle f) input of
                      (s1, mh, input1) \<Rightarrow>
                        if \<not> ok s1 then (s1, f\<lparr>metaindex_handle := mh\<rparr>, input1)
                        else
                          (case BlockHandle_DecodeFrom (index_handle f) input1 of
                             (s2, ih, input2) \<Rightarrow>
                               if \<not> ok s2
                               then (s2, f\<lparr>metaindex_handle := mh, index_handle := ih\<rparr>, input2)
                               else (OK, f\<lparr>metaindex_handle := mh, index_handle := ih\<rparr>,
                                     drop kEncodedLength input))))"
proof -
  have m: "magic_of (DecodeFixed32 (drop (kEncodedLength - 8) input))
                    (DecodeFixed32 (drop (kEncodedLength - 8 + 4) input)) =
           DecodeFixed64 (drop (kEncodedLength - 8) input)"
    using assms by (intro magic_of_DecodeFixed64) (simp add: kEncodedLength_48)
  have k: "kEncodedLength - 8 + 8 = kEncodedLength"
    by (simp add: kEncodedLength_48)
  have o: "\<And>s. ok s \<Longrightarrow> s = OK"
    by (case_tac s) auto
  show ?thesis
    unfolding Footer_DecodeFrom_def Let_def Footer_DecodeFrom_reads [OF assms] option.case m k
    by (auto split: prod.splits dest: o)
qed

lemma Footer_EncodeTo_example: "Footer_EncodeTo footer_example [] = Some footer_bytes"
  by (simp add: Footer_EncodeTo_def BlockHandle_EncodeTo_def footer_example_def footer_bytes_def
      EncodeVarint64_def EncodeVarint.simps resize_def kMaxEncodedLength_def kEncodedLength_def
      EncodeFixed32_def EncodeFixed_numeral kTableMagicNumber_def Let_def)

theorem Footer_DecodeFrom_magic_first_witness:
  "kEncodedLength \<le> length footer_bytes_bad \<and>
   DecodeFixed64 (drop (kEncodedLength - 8) footer_bytes_bad) \<noteq> kTableMagicNumber \<and>
   Footer_DecodeFrom empty_footer footer_bytes_bad =
     Some (Corruption ''not an sstable (bad magic number)'', empty_footer, footer_bytes_bad) \<and>
   kEncodedLength \<le> length footer_bytes \<and>
   DecodeFixed64 (drop (kEncodedLength - 8) footer_bytes) = kTableMagicNumber \<and>
   Footer_DecodeFrom empty_footer footer_bytes = Some (OK, footer_example, [])"
proof -
  have l1: "kEncodedLength \<le> length footer_bytes_bad"
    by (simp add: kEncodedLength_48 footer_bytes_bad_def)
  have m1: "DecodeFixed64 (drop (kEncodedLength - 8) footer_bytes_bad) \<noteq> kTableMagicNumber"
    by (simp add: kEncodedLength_48 footer_bytes_bad_def DecodeFixed64_def kTableMagicNumber_def)
  have l2: "kEncodedLength \<le> length footer_bytes"
    by (simp add: kEncodedLength_48 footer_bytes_def)
  have m2: "DecodeFixed64 (drop (kEncodedLength - 8) footer_bytes) = kTableMagicNumber"
    by (simp add: kEncodedLength_48 footer_bytes_def DecodeFixed64_def kTableMagicNumber_def)
  have b1: "\<And>h. BlockHandle_DecodeFrom h footer_bytes =
              (OK, \<lparr> h_offset = 100, h_size = 50 \<rparr>, drop 2 footer_bytes)"
    by (simp add: BlockHandle_DecodeFrom_def GetVarint64_def footer_bytes_def
        GetVarintPtr_numeral)
  have b2: "\<And>h. BlockHandle_DecodeFrom h (drop 2 footer_bytes) =
              (OK, \<lparr> h_offset = 150, h_size = 80 \<rparr>, drop 5 footer_bytes)"
    by (simp add: BlockHandle_DecodeFrom_def GetVarint64_def footer_bytes_def
        GetVarintPtr_numeral)
  have d: "drop kEncodedLength footer_bytes = []"
    by (simp add: kEncodedLength_48 footer_bytes_def)
  note t1 = Footer_DecodeFrom_magic_first
              [OF l1, of empty_footer, THEN conjunct1, rule_format, OF m1]
  note t2 = Footer_DecodeFrom_magic_first
              [OF l2, of empty_footer, THEN conjunct2, rule_format, OF m2]
  have "Footer_DecodeFrom empty_footer footer_bytes = Some (OK, footer_example, [])"
    using t2 by (simp add: b1 b2 d footer_example_def empty_footer_def)
  with l1 m1 t1 l2 m2 show ?thesis
    by blast
qed

lemma BlockHandle_DecodeFrom_status:
  "BlockHandle_DecodeFrom h input = (s, h', input') \<Longrightarrow>
   s = OK \<or> s = Corruption ''bad block handle''"
  by (auto simp: BlockHandle_DecodeFrom_def split: option.splits)

section \<open>Reading a block\<close>

lemma ok_iff: "ok s \<longleftrightarrow> s = OK"
  by (cases s) auto

lemma IsCorruption_Corruption [simp]: "IsCorruption (Corruption msg)"
  by (simp add: Corruption_def)

lemma Corruption_not_OK [simp]: "Corruption msg \<noteq> OK"
  by (simp add: Corruption_def)

text \<open>
  Away from the wrap: the byte source answered the read of \<open>handle.size + 5\<close> bytes (a
  sum that does not wrap) with at most that many bytes. If its status is an error,
  \<open>ReadBlock\<close> hands that status on. Otherwise \<open>ReadBlock\<close> returns a corruption error
  exactly when the source returned fewer than \<open>handle.size + 5\<close> bytes, or checksums are
  verified and the checksum of the data and the type byte differs from the stored one, or
  the type byte is neither of the two compression types, or it is the compressed type and
  the decompressor fails; and every other result is OK. An OK result of an uncompressed
  block is the first \<open>handle.size\<close> bytes that were read, unchanged.
\<close>

theorem ReadBlock_corruption_cases:
  assumes rd: "file_Read (h_offset handle) (h_size handle + kBlockTrailerSize) = (s, contents, in_buf)"
      and nowrap: "unat (h_size handle) + 5 < 2 ^ 64"
      and upto: "length contents \<le> unat (h_size handle) + 5"
  shows "(\<not> ok s \<longrightarrow>
            ReadBlock port file_Read options handle =
              Some (s, \<lparr> data = [], cachable = False, heap_allocated = False \<rparr>)) \<and>
         (ok s \<longrightarrow>
            (\<exists>st r. ReadBlock port file_Read options handle = Some (st, r) \<and>
               (IsCorruption st \<longleftrightarrow>
                  length contents < unat (h_size handle) + 5 \<or>
                  (verify_checksums options \<and>
                   crc32c_Value port (take (unat (h_size handle) + 1) contents) \<noteq>
                   crc32c_Unmask port (DecodeFixed32 (drop (unat (h_size handle) + 1) contents))) \<or>
                  (contents ! unat (h_size handle) \<noteq> kNoCompression \<and>
                   contents ! unat (h_size handle) \<noteq> kSnappyCompression) \<or>
                  (contents ! unat (h_size handle) = kSnappyCompression \<and>
                   (Snappy_GetUncompressedLength port (take (unat (h_size handle)) contents) = None \<or>
                    Snappy_Uncompress port (take (unat (h_size handle)) contents) = None))) \<and>
               (st = OK \<or> IsCorruption st) \<and>
               (st = OK \<and> contents ! unat (h_size handle) = kNoCompression \<longrightarrow>
                  data r = take (unat (h_size handle)) contents \<and>
                  length (data r) = unat (h_size handle))))"
proof -
  have n5: "unat (h_size handle + kBlockTrailerSize) = unat (h_size handle) + 5"
    using nowrap by (simp add: kBlockTrailerSize_def unat_word_ariths)
  have ne: "kNoCompression \<noteq> kSnappyCompression"
    by (simp add: kNoCompression_def kSnappyCompression_def)
  show ?thesis
  proof (intro conjI impI)
    assume "\<not> ok s"
    then show "ReadBlock port file_Read options handle =
              Some (s, \<lparr> data = [], cachable = False, heap_allocated = False \<rparr>)"
      using rd by (simp add: ReadBlock_def Let_def)
  next
    assume oks: "ok s"
    show "\<exists>st r. ReadBlock port file_Read options handle = Some (st, r) \<and>
               (IsCorruption st \<longleftrightarrow>
                  length contents < unat (h_size handle) + 5 \<or>
                  (verify_checksums options \<and>
                   crc32c_Value port (take (unat (h_size handle) + 1) contents) \<noteq>
                   crc32c_Unmask port (DecodeFixed32 (drop (unat (h_size handle) + 1) contents))) \<or>
                  (contents ! unat (h_size handle) \<noteq> kNoCompression \<and>
                   contents ! unat (h_size handle) \<noteq> kSnappyCompression) \<or>
                  (contents ! unat (h_size handle) = kSnappyCompression \<and>
                   (Snappy_GetUncompressedLength port (take (unat (h_size handle)) contents) = None \<or>
                    Snappy_Uncompress port (take (unat (h_size handle)) contents) = None))) \<and>
               (st = OK \<or> IsCorruption st) \<and>
               (st = OK \<and> contents ! unat (h_size handle) = kNoCompression \<longrightarrow>
                  data r = take (unat (h_size handle)) contents \<and>
                  length (data r) = unat (h_size handle))"
    proof (cases "length contents < unat (h_size handle) + 5")
      case True
      then show ?thesis
        using rd oks n5 by (simp add: ReadBlock_def Let_def)
    next
      case False
      then have len: "length contents = unat (h_size handle) + 5"
        using upto by simp
      show ?thesis
        using rd oks n5 len ne
        by (auto simp: ReadBlock_def Let_def split: option.splits)
    qed
  qed
qed

theorem ReadBlock_corruption_cases_witness:
  "bytes_file block_example (h_offset handle_example) (h_size handle_example + kBlockTrailerSize) =
     (OK, block_example, True) \<and>
   unat (h_size handle_example) + 5 < 2 ^ 64 \<and>
   length block_example \<le> unat (h_size handle_example) + 5 \<and>
   (\<exists>st r. ReadBlock example_port (bytes_file block_example) \<lparr> verify_checksums = True \<rparr>
              handle_example = Some (st, r) \<and> st = OK \<and> data r = [1, 2, 3]) \<and>
   bytes_file (take 4 block_example) (h_offset handle_example)
     (h_size handle_example + kBlockTrailerSize) = (OK, take 4 block_example, True) \<and>
   length (take 4 block_example) \<le> unat (h_size handle_example) + 5 \<and>
   (\<exists>st r. ReadBlock example_port (bytes_file (take 4 block_example))
              \<lparr> verify_checksums = True \<rparr> handle_example = Some (st, r) \<and> IsCorruption st)"
proof -
  let ?n = "unat (h_size handle_example)"
  have rd: "bytes_file block_example (h_offset handle_example)
              (h_size handle_example + kBlockTrailerSize) = (OK, block_example, True)"
    by (simp add: bytes_file_def block_example_def handle_example_def kBlockTrailerSize_def)
  have nw: "?n + 5 < 2 ^ 64"
    by (simp add: handle_example_def)
  have le: "length block_example \<le> ?n + 5"
    by (simp add: block_example_def handle_example_def)
  have rd': "bytes_file (take 4 block_example) (h_offset handle_example)
              (h_size handle_example + kBlockTrailerSize) = (OK, take 4 block_example, True)"
    by (simp add: bytes_file_def block_example_def handle_example_def kBlockTrailerSize_def)
  have le': "length (take 4 block_example) \<le> ?n + 5"
    by (simp add: block_example_def handle_example_def)
  have short: "length (take 4 block_example) < ?n + 5"
    by (simp add: block_example_def handle_example_def)
  have full: "\<not> length block_example < ?n + 5"
    by (simp add: block_example_def handle_example_def)
  have crc: "crc32c_Value example_port (take (?n + 1) block_example) =
             crc32c_Unmask example_port (DecodeFixed32 (drop (?n + 1) block_example))"
    by (simp add: example_port_def block_example_def handle_example_def DecodeFixed32_def)
  have ty: "block_example ! ?n = kNoCompression"
    by (simp add: block_example_def handle_example_def kNoCompression_def)
  have ne: "kNoCompression \<noteq> kSnappyCompression"
    by (simp add: kNoCompression_def kSnappyCompression_def)
  have tk: "take ?n block_example = [1, 2, 3]"
    by (simp add: block_example_def handle_example_def)
  have o: "ok OK"
    by simp
  note t = ReadBlock_corruption_cases
             [where file_Read = "bytes_file block_example" and handle = handle_example
                and port = example_port and options = "\<lparr> verify_checksums = True \<rparr>",
              OF rd nw le, THEN conjunct2, rule_format, OF o]
  note t' = ReadBlock_corruption_cases
              [where file_Read = "bytes_file (take 4 block_example)" and handle = handle_example
                 and port = example_port and options = "\<lparr> verify_checksums = True \<rparr>",
               OF rd' nw le', THEN conjunct2, rule_format, OF o]
  have good: "\<exists>st r. ReadBlock example_port (bytes_file block_example)
                \<lparr> verify_checksums = True \<rparr> handle_example = Some (st, r) \<and>
                st = OK \<and> data r = [1, 2, 3]"
    using t full crc ty ne tk by auto
  have bad: "\<exists>st r. ReadBlock example_port (bytes_file (take 4 block_example))
               \<lparr> verify_checksums = True \<rparr> handle_example = Some (st, r) \<and> IsCorruption st"
    using t' short by blast
  from rd nw le good rd' le' bad show ?thesis
    by blast
qed

text \<open>
  C8. The claim fails where the size wraps. For a handle of size \<open>2^64 - 5\<close> the sum
  \<open>n + kBlockTrailerSize\<close> is 0 in \<open>size_t\<close>: \<open>ReadBlock\<close> asks the byte source for 0
  bytes, the source returns 0 bytes, which is fewer than \<open>handle.size + 5\<close>, and the
  test \<open>contents.size() != n + kBlockTrailerSize\<close> compares 0 with 0 and lets the read
  pass. \<open>ReadBlock\<close> then reads \<open>data[n]\<close> outside the empty slice instead of returning
  a corruption error, whatever the file holds, with and without checksum verification.
\<close>

theorem ReadBlock_size_wraps:
  "unat (h_size handle_wrap) + 5 = 2 ^ 64 \<and>
   h_size handle_wrap + kBlockTrailerSize = 0 \<and>
   bytes_file content (h_offset handle_wrap) (h_size handle_wrap + kBlockTrailerSize) = (OK, [], True) \<and>
   length ([] :: bytes) < unat (h_size handle_wrap) + 5 \<and>
   ReadBlock port (bytes_file content) options handle_wrap = None"
proof -
  have w: "h_size handle_wrap + kBlockTrailerSize = 0"
    by (simp add: handle_wrap_def kBlockTrailerSize_def)
  have u: "unat (h_size handle_wrap) + 5 = 2 ^ 64"
    by (simp add: handle_wrap_def)
  have rd: "bytes_file content (h_offset handle_wrap) (h_size handle_wrap + kBlockTrailerSize) = (OK, [], True)"
    unfolding w by (simp add: bytes_file_def)
  have "ReadBlock port (bytes_file content) options handle_wrap = None"
    unfolding ReadBlock_def Let_def rd by (simp add: w u)
  with w u rd show ?thesis
    by simp
qed

section \<open>The filter of an empty range\<close>

text \<open>
  The filter block of the example holds one filter of one byte for the first 2 KiB
  range and an empty filter for the second: its offset array is 0, 1 and the offset of
  the array itself is 1.
\<close>

lemma FilterBlockReader_new_example:
  "FilterBlockReader_new p filter_block_example =
     \<lparr> fr_policy = p, fr_data = Some filter_block_example, fr_offset = 1, fr_num = 2,
       fr_base_lg = 11 \<rparr>"
  by (simp add: FilterBlockReader_new_def filter_block_example_def DecodeFixed32_def Let_def)

lemma KeyMayMatch_example_policy:
  "KeyMayMatch (FilterBlockReader_new p filter_block_example) 2048 key = Some (p key [])"
  unfolding FilterBlockReader_new_example
  by (simp add: KeyMayMatch_def read_fixed32_def filter_block_example_def DecodeFixed32_def
      drop_bit_eq_div Let_def)

text \<open>
  C2. For the second range, \<open>start = limit = 1\<close> is a valid range: \<open>KeyMayMatch\<close>
  hands the empty filter to the policy and returns its answer, which is true for a
  policy that answers true on a filter it cannot read. The branch \<open>start == limit\<close>
  that returns false is reached only when \<open>limit\<close> lies behind the filters.
\<close>

theorem KeyMayMatch_empty_filter_consults_policy:
  "read_fixed32 filter_block_example (1 + 1 * 4) = Some 1 \<and>
   read_fixed32 filter_block_example (1 + 1 * 4 + 4) = Some 1 \<and>
   KeyMayMatch (FilterBlockReader_new (\<lambda>key filter. True) filter_block_example) 2048 [107] =
     Some True \<and>
   KeyMayMatch (FilterBlockReader_new (\<lambda>key filter. False) filter_block_example) 2048 [107] =
     Some False"
  by (simp add: KeyMayMatch_example_policy)
    (simp add: read_fixed32_def filter_block_example_def DecodeFixed32_def)

section \<open>The block builder\<close>

lemma shared_loop_bounds:
  "s \<le> m \<Longrightarrow> s \<le> shared_loop l k m s \<and> shared_loop l k m s \<le> m"
proof (induction l k m s rule: shared_loop.induct)
  case (1 l k m s)
  then show ?case
    by (subst shared_loop.simps, subst (2) shared_loop.simps) auto
qed

lemma shared_loop_agree:
  "\<forall>i < s. l ! i = k ! i \<Longrightarrow> \<forall>i < shared_loop l k m s. l ! i = k ! i"
proof (induction l k m s rule: shared_loop.induct)
  case (1 l k m s)
  show ?case
  proof (cases "s < m \<and> l ! s = k ! s")
    case True
    then have "\<forall>i < s + 1. l ! i = k ! i"
      using "1.prems" by (auto simp: less_Suc_eq)
    with True "1.IH" show ?thesis
      by (subst shared_loop.simps) simp
  next
    case False
    then show ?thesis
      using "1.prems" by (subst shared_loop.simps) auto
  qed
qed

lemma shared_with_le: "shared_with l k \<le> length l" "shared_with l k \<le> length k"
  using shared_loop_bounds [of 0 "min (length l) (length k)" l k]
  by (simp_all add: shared_with_def)

lemma shared_with_take: "take (shared_with l k) l = take (shared_with l k) k"
proof (rule nth_equalityI)
  show "length (take (shared_with l k) l) = length (take (shared_with l k) k)"
    using shared_with_le [of l k] by simp
next
  fix i
  assume "i < length (take (shared_with l k) l)"
  then have "i < shared_with l k" by simp
  then show "take (shared_with l k) l ! i = take (shared_with l k) k ! i"
    using shared_loop_agree [of 0 l k "min (length l) (length k)"]
    by (simp add: shared_with_def)
qed

lemma shared_with_Nil [simp]: "shared_with [] k = 0"
  using shared_with_le(1) [of "[]" k] by simp

lemma length_EncodeVarint32: "0 < length (EncodeVarint32 w)" "length (EncodeVarint32 w) \<le> 5"
proof -
  show "0 < length (EncodeVarint32 w)"
    using length_EncodeVarint_pos [of "unat w"] by (simp add: EncodeVarint32_def)
  have "unat w < 2 ^ 32"
    using unsigned_less [of w] by simp
  then have "unat w < 128 ^ 5"
    by simp
  then show "length (EncodeVarint32 w) \<le> 5"
    by (simp add: EncodeVarint32_def length_EncodeVarint_le)
qed

lemma record_bytes_length:
  "3 + (length key - shared) + length value \<le> length (record_bytes shared key value)"
  "length (record_bytes shared key value) \<le> 15 + (length key - shared) + length value"
  using length_EncodeVarint32 [of "of_nat shared"]
    length_EncodeVarint32 [of "of_nat (length key - shared)"]
    length_EncodeVarint32 [of "of_nat (length value)"]
  by (simp_all add: record_bytes_def del: length_greater_0_conv)

lemma unat_of_nat32: "n < 2 ^ 32 \<Longrightarrow> unat (of_nat n :: 32 word) = n"
  by (simp add: unat_of_nat)

lemma DecodeEntries_record:
  assumes "shared \<le> length last_key" and "shared \<le> length key"
    and "take shared last_key = take shared key"
    and "length key < 2 ^ 32" and "length value < 2 ^ 32"
  shows "DecodeEntries off last_key (record_bytes shared key value @ rest) =
           (case DecodeEntries (off + length (record_bytes shared key value)) key rest of
              None \<Rightarrow> None
            | Some es \<Rightarrow>
                Some (\<lparr> e_offset = off, e_shared = shared, e_key = key, e_value = value \<rparr> # es))"
proof -
  let ?a = "EncodeVarint32 (of_nat shared)"
  let ?b = "EncodeVarint32 (of_nat (length key - shared))"
  let ?c = "EncodeVarint32 (of_nat (length value))"
  let ?p3 = "drop shared key @ value @ rest"
  let ?p = "record_bytes shared key value @ rest"
  have p: "?p = ?a @ ?b @ ?c @ ?p3"
    by (simp add: record_bytes_def)
  have ne: "?p \<noteq> []"
    using length_EncodeVarint32(1) [of "of_nat shared"] by (simp add: record_bytes_def)
  have g1: "GetVarint32 ?p = Some (of_nat shared, ?b @ ?c @ ?p3)"
    unfolding p by (rule GetVarint32_EncodeVarint32)
  have g2: "GetVarint32 (?b @ ?c @ ?p3) = Some (of_nat (length key - shared), ?c @ ?p3)"
    by (rule GetVarint32_EncodeVarint32)
  have g3: "GetVarint32 (?c @ ?p3) = Some (of_nat (length value), ?p3)"
    by (rule GetVarint32_EncodeVarint32)
  have u1: "unat (of_nat shared :: 32 word) = shared"
    using assms by (simp add: unat_of_nat32)
  have "length key - shared < 2 ^ 32"
    using assms by simp
  then have u2: "unat (of_nat (length key - shared) :: 32 word) = length key - shared"
    by (rule unat_of_nat32)
  have u3: "unat (of_nat (length value) :: 32 word) = length value"
    using assms by (simp add: unat_of_nat32)
  have k: "take shared last_key @ take (length key - shared) ?p3 = key"
    using assms by simp
  have v: "take (length value) (drop (length key - shared) ?p3) = value"
    using assms by simp
  have r: "drop (length key - shared + length value) ?p3 = rest"
    using assms by simp
  have o: "off + (length ?p - length ?p3) + (length key - shared) + length value =
           off + length (record_bytes shared key value)"
    using assms by (simp add: record_bytes_def)
  show ?thesis
    apply (subst DecodeEntries.simps)
    apply (simp only: ne if_False g1 g2 g3 option.case prod.case u1 u2 u3 k v r o)
    using assms by auto
qed

lemma layout_bytes_simps [simp]:
  "layout_bytes [] = []"
  "layout_bytes (x # xs) = entry_bytes x @ layout_bytes xs"
  by (simp_all add: layout_bytes_def)

lemma layout_restarts_simps [simp]:
  "layout_restarts [] = []"
  "layout_restarts ((r, e) # xs) = (if r then of_nat (e_offset e) # layout_restarts xs else layout_restarts xs)"
  by (simp_all add: layout_restarts_def)

lemma resize_take: "n \<le> length xs \<Longrightarrow> resize n xs = take n xs"
  by (simp add: resize_def)

lemma BlockBuilder_Add_step:
  assumes "bb_inv b"
  shows "BlockBuilder_Add b k v =
           (if bb_buffer b = [] \<or> comparator (bb_options b) k (bb_last_key b) > 0
            then
              (if bb_counter b < block_restart_interval (bb_options b)
               then Some (b\<lparr>bb_buffer := bb_buffer b @ record_bytes (shared_with (bb_last_key b) k) k v,
                            bb_restarts := bb_restarts b,
                            bb_counter := bb_counter b + 1, bb_last_key := k\<rparr>)
               else Some (b\<lparr>bb_buffer := bb_buffer b @ record_bytes 0 k v,
                            bb_restarts := bb_restarts b @ [of_nat (length (bb_buffer b))],
                            bb_counter := 1, bb_last_key := k\<rparr>))
            else None)"
proof -
  let ?sh = "shared_with (bb_last_key b) k"
  have a: "resize ?sh (bb_last_key b) @ take (length k - ?sh) (drop ?sh k) = k"
    using shared_with_le [of "bb_last_key b" k] shared_with_take [of "bb_last_key b" k]
    by (simp add: resize_take)
  have z: "resize 0 (bb_last_key b) @ take (length k - 0) (drop 0 k) = k"
    by (simp add: resize_def)
  show ?thesis
    using assms a z
    by (simp add: BlockBuilder_Add_def Let_def bb_inv_def record_bytes_def shared_with_def)
qed

lemma BlockBuilder_Add_inv:
  assumes "bb_inv b" and "BlockBuilder_Add b k v = Some b1"
  shows "bb_inv b1 \<and> bb_options b1 = bb_options b \<and> bb_last_key b1 = k \<and> bb_buffer b1 \<noteq> []"
proof -
  let ?sh = "shared_with (bb_last_key b) k"
  have l1: "length k \<le> length (bb_buffer b) + length (record_bytes ?sh k v)"
    using record_bytes_length(1) [of k ?sh v] shared_with_le(1) [of "bb_last_key b" k] assms(1)
    by (auto simp: bb_inv_def)
  have l2: "length k \<le> length (bb_buffer b) + length (record_bytes 0 k v)"
    using record_bytes_length(1) [of k 0 v] by simp
  have n1: "record_bytes ?sh k v \<noteq> []" "record_bytes 0 k v \<noteq> []"
    using record_bytes_length(1) [of k ?sh v] record_bytes_length(1) [of k 0 v] by auto
  show ?thesis
    using assms l1 l2 n1 unfolding BlockBuilder_Add_step [OF assms(1)]
    by (auto simp: bb_inv_def split: if_splits)
qed

lemma AddAll_layout:
  assumes "bb_inv b" and "AddAll b kvs = Some b'"
  shows "bb_buffer b' = bb_buffer b @
           layout_bytes (layout (block_restart_interval (bb_options b)) (bb_counter b)
                           (length (bb_buffer b)) (bb_last_key b) kvs) \<and>
         bb_restarts b' = bb_restarts b @
           layout_restarts (layout (block_restart_interval (bb_options b)) (bb_counter b)
                              (length (bb_buffer b)) (bb_last_key b) kvs) \<and>
         bb_options b' = bb_options b \<and> bb_inv b'"
  using assms
proof (induction kvs arbitrary: b)
  case Nil
  then show ?case by simp
next
  case (Cons kv kvs)
  obtain k v where kv: "kv = (k, v)" by (cases kv)
  from Cons.prems(2) obtain b1 where
    add: "BlockBuilder_Add b k v = Some b1" and rest: "AddAll b1 kvs = Some b'"
    by (auto simp: kv split: option.splits)
  note inv1 = BlockBuilder_Add_inv [OF Cons.prems(1) add]
  note ih = Cons.IH [OF _ rest]
  show ?case
  proof (cases "bb_counter b < block_restart_interval (bb_options b)")
    case True
    then have b1: "b1 = b\<lparr>bb_buffer := bb_buffer b @ record_bytes (shared_with (bb_last_key b) k) k v,
                            bb_restarts := bb_restarts b,
                            bb_counter := bb_counter b + 1, bb_last_key := k\<rparr>"
      using add unfolding BlockBuilder_Add_step [OF Cons.prems(1)] by (auto split: if_splits)
    show ?thesis
      using ih inv1 True by (simp add: kv b1 entry_bytes_def)
  next
    case False
    then have b1: "b1 = b\<lparr>bb_buffer := bb_buffer b @ record_bytes 0 k v,
                            bb_restarts := bb_restarts b @ [of_nat (length (bb_buffer b))],
                            bb_counter := 1, bb_last_key := k\<rparr>"
      using add unfolding BlockBuilder_Add_step [OF Cons.prems(1)] by (auto split: if_splits)
    show ?thesis
      using ih inv1 False by (simp add: kv b1 entry_bytes_def)
  qed
qed


lemma DecodeEntries_Nil [simp]: "DecodeEntries off last_key [] = Some []"
  by (subst DecodeEntries.simps) simp

lemma DecodeEntries_layout:
  assumes "length last_key + length (layout_bytes (layout R c off last_key kvs)) < 2 ^ 32"
  shows "DecodeEntries off last_key (layout_bytes (layout R c off last_key kvs)) =
           Some (map snd (layout R c off last_key kvs))"
  using assms
proof (induction kvs arbitrary: c off last_key)
  case Nil
  then show ?case by simp
next
  case (Cons kv kvs)
  obtain k v where kv: "kv = (k, v)" by (cases kv)
  define sh where "sh = (if c < R then shared_with last_key k else 0)"
  define c' where "c' = (if c < R then c + 1 else 1)"
  have lay: "layout R c off last_key (kv # kvs) =
               (\<not> c < R, \<lparr> e_offset = off, e_shared = sh, e_key = k, e_value = v \<rparr>) #
               layout R c' (off + length (record_bytes sh k v)) k kvs"
    by (simp add: kv sh_def c'_def)
  let ?rest = "layout_bytes (layout R c' (off + length (record_bytes sh k v)) k kvs)"
  have bytes: "layout_bytes (layout R c off last_key (kv # kvs)) = record_bytes sh k v @ ?rest"
    by (simp add: lay entry_bytes_def)
  have sh1: "sh \<le> length last_key" and sh2: "sh \<le> length k"
    and sh3: "take sh last_key = take sh k"
    using shared_with_le [of last_key k] shared_with_take [of last_key k]
    by (auto simp: sh_def)
  have lk: "length k \<le> length last_key + length (record_bytes sh k v)"
    using record_bytes_length(1) [of k sh v] sh1 by simp
  have lv: "length v \<le> length (record_bytes sh k v)"
    using record_bytes_length(1) [of k sh v] by simp
  have total: "length last_key + length (record_bytes sh k v) + length ?rest < 2 ^ 32"
    using Cons.prems by (simp add: bytes)
  have k32: "length k < 2 ^ 32" and v32: "length v < 2 ^ 32"
    using lk lv total by simp_all
  have "length k + length ?rest < 2 ^ 32"
    using lk total by simp
  then have ih: "DecodeEntries (off + length (record_bytes sh k v)) k ?rest =
                   Some (map snd (layout R c' (off + length (record_bytes sh k v)) k kvs))"
    by (rule Cons.IH)
  show ?case
    unfolding bytes DecodeEntries_record [OF sh1 sh2 sh3 k32 v32] ih
    by (simp add: lay)
qed

lemma record_bytes_ne [simp]: "record_bytes sh k v \<noteq> []"
proof
  assume "record_bytes sh k v = []"
  then have "length (record_bytes sh k v) = 0" by simp
  then show False
    using record_bytes_length(1) [of k sh v] by simp
qed


lemma length_layout [simp]: "length (layout R c off last_key kvs) = length kvs"
  by (induction kvs arbitrary: c off last_key) auto


lemma layout_offset_lt:
  "x \<in> set (layout R c off last_key kvs) \<Longrightarrow>
   e_offset (snd x) < off + length (layout_bytes (layout R c off last_key kvs))"
proof (induction kvs arbitrary: c off last_key)
  case Nil
  then show ?case by simp
next
  case (Cons kv kvs)
  obtain k v where kv: "kv = (k, v)" by (cases kv)
  have p: "0 < length (record_bytes (shared_with last_key k) k v)" "0 < length (record_bytes 0 k v)"
    by simp_all
  show ?case
    using Cons.prems p
      Cons.IH [of "c + 1" "off + length (record_bytes (shared_with last_key k) k v)" k]
      Cons.IH [of 1 "off + length (record_bytes 0 k v)" k]
    by (auto simp: kv entry_bytes_def split: if_splits)
qed

lemma layout_restart_shared:
  "(True, e) \<in> set (layout R c off last_key kvs) \<Longrightarrow> e_shared e = 0"
proof (induction kvs arbitrary: c off last_key)
  case Nil
  then show ?case by simp
next
  case (Cons kv kvs)
  obtain k v where kv: "kv = (k, v)" by (cases kv)
  show ?case
    using Cons.prems Cons.IH [of "c + 1" "off + length (record_bytes (shared_with last_key k) k v)" k]
      Cons.IH [of 1 "off + length (record_bytes 0 k v)" k]
    by (auto simp: kv split: if_splits)
qed


lemma layout_first:
  "kvs \<noteq> [] \<Longrightarrow> c < R \<Longrightarrow>
   \<exists>e. (False, e) \<in> set (layout R c off [] kvs) \<and> e_offset e = off \<and> e_shared e = 0"
  by (cases kvs) auto

lemma layout_count:
  assumes "1 \<le> R" and "0 \<le> c" and "c \<le> R"
  shows "length (filter fst (layout R c off last_key kvs)) = (nat c + length kvs - 1) div nat R"
  using assms(2,3)
proof (induction kvs arbitrary: c off last_key)
  case Nil
  then have "nat c - 1 < nat R"
    using assms(1) by simp
  then show ?case
    by simp
next
  case (Cons kv kvs)
  obtain k v where kv: "kv = (k, v)" by (cases kv)
  show ?case
  proof (cases "c < R")
    case True
    have "length (filter fst (layout R (c + 1) (off + length (record_bytes (shared_with last_key k) k v)) k kvs))
          = (nat (c + 1) + length kvs - 1) div nat R"
      using True Cons.prems by (intro Cons.IH) simp_all
    moreover have "nat (c + 1) + length kvs - 1 = nat c + length (kv # kvs) - 1"
      using Cons.prems by (simp add: nat_add_distrib)
    ultimately show ?thesis
      using True by (simp add: kv)
  next
    case False
    then have cR: "c = R" using Cons.prems by simp
    have "length (filter fst (layout R 1 (off + length (record_bytes 0 k v)) k kvs))
          = (nat 1 + length kvs - 1) div nat R"
      using assms(1) by (intro Cons.IH) simp_all
    moreover have "nat c + length (kv # kvs) - 1 = length kvs + nat R"
      using cR assms(1) by simp
    moreover have "0 < nat R"
      using assms(1) by simp
    then have "(length kvs + nat R) div nat R = Suc (length kvs div nat R)"
      by (metis div_add_self2 Suc_eq_plus1 less_numeral_extra(3))
    ultimately show ?thesis
      using False by (simp add: kv add.commute)
  qed
qed

lemma foldl_PutFixed32:
  "foldl (\<lambda>buffer r. buffer @ EncodeFixed32 r) buf rs = buf @ concat (map EncodeFixed32 rs)"
  by (induction rs arbitrary: buf) auto

lemma length_EncodeFixed32 [simp]: "length (EncodeFixed32 w) = 4"
  by (simp add: EncodeFixed32_def length_EncodeFixed)

lemma DecodeFixed32_EncodeFixed32: "DecodeFixed32 (EncodeFixed32 w @ q) = w"
proof -
  have "unat w < 2 ^ 32"
    using unsigned_less [of w] by simp
  then have "unat w mod 256 ^ 4 = unat w"
    by simp
  then show ?thesis
    by (simp add: DecodeFixed32_def EncodeFixed32_def length_EncodeFixed DecodeFixed_EncodeFixed)
qed

lemma length_concat_EncodeFixed32 [simp]: "length (concat (map EncodeFixed32 rs)) = 4 * length rs"
  by (induction rs) auto

lemma DecodeFixed32_restart_array:
  "i < length rs \<Longrightarrow> DecodeFixed32 (drop (4 * i) (concat (map EncodeFixed32 rs) @ q)) = rs ! i"
proof (induction rs arbitrary: i)
  case Nil
  then show ?case by simp
next
  case (Cons r rs)
  show ?case
  proof (cases i)
    case 0
    then show ?thesis
      using DecodeFixed32_EncodeFixed32 [of r "concat (map EncodeFixed32 rs) @ q"] by simp
  next
    case (Suc j)
    then show ?thesis
      using Cons.prems Cons.IH [of j] by simp
  qed
qed

lemma DecodeBlock_trailer:
  assumes "length rs < 2 ^ 32"
  shows "DecodeBlock (d @ concat (map EncodeFixed32 rs) @ EncodeFixed32 (of_nat (length rs))) =
           (case DecodeEntries 0 [] d of None \<Rightarrow> None | Some es \<Rightarrow> Some (es, rs))"
proof -
  let ?block = "d @ concat (map EncodeFixed32 rs) @ EncodeFixed32 (of_nat (length rs))"
  have len: "length ?block = length d + 4 * length rs + 4"
    by simp
  have "drop (length ?block - 4) ?block = EncodeFixed32 (of_nat (length rs))"
    by simp
  then have "NumRestarts ?block = of_nat (length rs)"
    using DecodeFixed32_EncodeFixed32 [of "of_nat (length rs)" "[]"]
    by (simp add: NumRestarts_def)
  then have n: "unat (NumRestarts ?block) = length rs"
    using assms by (simp add: unat_of_nat32)
  have ro: "length ?block - 4 - 4 * length rs = length d"
    by simp
  have arr: "map (\<lambda>i. DecodeFixed32 (drop (length d + 4 * i) ?block)) [0..<length rs] = rs"
  proof (rule nth_equalityI)
    show "length (map (\<lambda>i. DecodeFixed32 (drop (length d + 4 * i) ?block)) [0..<length rs]) = length rs"
      by simp
  next
    fix i
    assume "i < length (map (\<lambda>i. DecodeFixed32 (drop (length d + 4 * i) ?block)) [0..<length rs])"
    then have i: "i < length rs" by simp
    have "drop (length d + 4 * i) ?block =
          drop (4 * i) (concat (map EncodeFixed32 rs) @ EncodeFixed32 (of_nat (length rs)))"
      by simp
    then show "map (\<lambda>i. DecodeFixed32 (drop (length d + 4 * i) ?block)) [0..<length rs] ! i = rs ! i"
      using i DecodeFixed32_restart_array [OF i] by simp
  qed
  have tk: "take (length d) ?block = d"
    by simp
  show ?thesis
    unfolding DecodeBlock_def Let_def n ro arr tk
    by simp
qed

lemma BlockBuilder_new_inv:
  assumes "BlockBuilder_new options = Some b0"
  shows "bb_inv b0" and "bb_options b0 = options" and "bb_buffer b0 = []"
    and "bb_restarts b0 = [0]" and "bb_counter b0 = 0" and "bb_last_key b0 = []"
    and "1 \<le> block_restart_interval options"
  using assms by (auto simp: BlockBuilder_new_def bb_inv_def split: if_splits)

lemma Finish_bytes:
  "snd (BlockBuilder_Finish b) =
     bb_buffer b @ concat (map EncodeFixed32 (bb_restarts b)) @
     EncodeFixed32 (of_nat (length (bb_restarts b)))"
  by (simp add: BlockBuilder_Finish_def Let_def foldl_PutFixed32)

lemma fresh_block:
  assumes new: "BlockBuilder_new options = Some b0" and add: "AddAll b0 kvs = Some b"
  defines "L \<equiv> layout (block_restart_interval options) 0 0 [] kvs"
  shows "bb_buffer b = layout_bytes L" and "bb_restarts b = 0 # layout_restarts L"
    and "length (snd (BlockBuilder_Finish b)) < 2 ^ 32 \<Longrightarrow>
         DecodeBlock (snd (BlockBuilder_Finish b)) = Some (map snd L, bb_restarts b)"
proof -
  note n = BlockBuilder_new_inv [OF new]
  from AddAll_layout [OF n(1) add]
  show buf: "bb_buffer b = layout_bytes L" and rs: "bb_restarts b = 0 # layout_restarts L"
    by (simp_all add: n L_def)
  assume small: "length (snd (BlockBuilder_Finish b)) < 2 ^ 32"
  then have a: "length (bb_restarts b) < 2 ^ 32"
    and c: "length ([] :: bytes) + length (layout_bytes L) < 2 ^ 32"
    by (simp_all add: Finish_bytes buf)
  have "DecodeEntries 0 [] (layout_bytes L) = Some (map snd L)"
    unfolding L_def using c [unfolded L_def] by (rule DecodeEntries_layout)
  then show "DecodeBlock (snd (BlockBuilder_Finish b)) = Some (map snd L, bb_restarts b)"
    unfolding Finish_bytes DecodeBlock_trailer [OF a] by (simp add: buf)
qed

lemma fresh_restart_records:
  assumes R: "1 \<le> R" and small: "length (layout_bytes (layout R 0 0 [] kvs)) < 2 ^ 32"
    and r: "r \<in> set (0 # layout_restarts (layout R 0 0 [] kvs))" and ne: "kvs \<noteq> []"
  shows "\<exists>x \<in> set (layout R 0 0 [] kvs). e_offset (snd x) = unat r \<and> e_shared (snd x) = 0"
proof (cases "r = 0")
  case True
  from layout_first [OF ne, of 0 R 0] R obtain e where
    "(False, e) \<in> set (layout R 0 0 [] kvs)" "e_offset e = 0" "e_shared e = 0"
    by auto
  then show ?thesis
    using True by force
next
  case False
  with r obtain x where x: "x \<in> set (layout R 0 0 [] kvs)" "fst x" "r = of_nat (e_offset (snd x))"
    by (auto simp: layout_restarts_def)
  have "e_offset (snd x) < 2 ^ 32"
    using layout_offset_lt [OF x(1)] small by simp
  then have "unat r = e_offset (snd x)"
    by (simp add: x(3) unat_of_nat32)
  moreover have "e_shared (snd x) = 0"
    using layout_restart_shared [of "snd x" R 0 0 "[]" kvs] x(1,2) by (cases x) auto
  ultimately show ?thesis
    using x(1) by auto
qed


text \<open>
  C5 (as amended). After \<open>N\<close> records were added to a fresh builder of restart interval
  \<open>R\<close>, the builder holds 1 restart point when \<open>N = 0\<close> and \<open>ceil(N / R)\<close> restart points
  otherwise. When the finished block is shorter than 4 GiB, its trailer holds exactly
  these, and for \<open>N \<ge> 1\<close> each restart offset is the offset of a record whose
  \<open>shared\<close> field is 0.
\<close>

theorem BlockBuilder_restart_count:
  assumes new: "BlockBuilder_new options = Some b0" and add: "AddAll b0 kvs = Some b"
  shows "length (bb_restarts b) =
           (if kvs = [] then 1
            else (length kvs + nat (block_restart_interval options) - 1) div
                 nat (block_restart_interval options)) \<and>
         (length (snd (BlockBuilder_Finish b)) < 2 ^ 32 \<longrightarrow>
            unat (NumRestarts (snd (BlockBuilder_Finish b))) = length (bb_restarts b) \<and>
            (\<exists>es. DecodeBlock (snd (BlockBuilder_Finish b)) = Some (es, bb_restarts b) \<and>
                  length es = length kvs \<and>
                  (kvs \<noteq> [] \<longrightarrow>
                     (\<forall>r \<in> set (bb_restarts b).
                         \<exists>e \<in> set es. e_offset e = unat r \<and> e_shared e = 0))))"
proof (intro conjI impI)
  note n = BlockBuilder_new_inv [OF new]
  define R where "R = block_restart_interval options"
  define L where "L = layout R 0 0 [] kvs"
  note fb = fresh_block [OF new add, folded R_def, folded L_def]
  have cnt: "length (layout_restarts L) = (length kvs - 1) div nat R"
    using layout_count [of R 0 0 "[]" kvs] n(7)
    by (simp add: layout_restarts_def L_def R_def)
  show "length (bb_restarts b) =
           (if kvs = [] then 1
            else (length kvs + nat (block_restart_interval options) - 1) div
                 nat (block_restart_interval options))"
  proof (cases kvs)
    case Nil
    then show ?thesis by (simp add: fb(2) L_def)
  next
    case (Cons kv kvs')
    have "0 < nat R" using n(7) by (simp add: R_def)
    then have "(length kvs' + nat R) div nat R = Suc (length kvs' div nat R)"
      by (metis div_add_self2 Suc_eq_plus1 less_numeral_extra(3))
    then show ?thesis
      using cnt by (simp add: fb(2) Cons R_def)
  qed
  assume small: "length (snd (BlockBuilder_Finish b)) < 2 ^ 32"
  have a: "length (bb_restarts b) < 2 ^ 32"
    using small by (simp add: Finish_bytes)
  have "NumRestarts (snd (BlockBuilder_Finish b)) = of_nat (length (bb_restarts b))"
    using DecodeFixed32_EncodeFixed32 [of "of_nat (length (bb_restarts b))" "[]"]
    by (simp add: NumRestarts_def Finish_bytes)
  then show "unat (NumRestarts (snd (BlockBuilder_Finish b))) = length (bb_restarts b)"
    using a by (simp add: unat_of_nat32)
  have sm: "length (layout_bytes L) < 2 ^ 32"
    using small by (simp add: Finish_bytes fb(1))
  show "\<exists>es. DecodeBlock (snd (BlockBuilder_Finish b)) = Some (es, bb_restarts b) \<and>
             length es = length kvs \<and>
             (kvs \<noteq> [] \<longrightarrow>
                (\<forall>r \<in> set (bb_restarts b). \<exists>e \<in> set es. e_offset e = unat r \<and> e_shared e = 0))"
  proof (intro exI conjI impI ballI)
    show "DecodeBlock (snd (BlockBuilder_Finish b)) = Some (map snd L, bb_restarts b)"
      by (rule fb(3) [OF small])
    show "length (map snd L) = length kvs"
      by (simp add: L_def)
  next
    fix r
    assume ne: "kvs \<noteq> []" and r: "r \<in> set (bb_restarts b)"
    from fresh_restart_records [OF _ sm [unfolded L_def] r [unfolded fb(2) L_def] ne] n(7)
    show "\<exists>e \<in> set (map snd L). e_offset e = unat r \<and> e_shared e = 0"
      by (auto simp: L_def R_def)
  qed
qed

lemma BlockBuilder_new_example:
  "BlockBuilder_new (options_example R) = (if 1 \<le> R then Some (fresh_example R) else None)"
  by (simp add: BlockBuilder_new_def options_example_def fresh_example_def)

lemma AddAll_example: "AddAll (fresh_example 2) kvs_example = Some built_example"
  by (simp add: fresh_example_def kvs_example_def built_example_def options_example_def
      BlockBuilder_Add_def Let_def shared_loop.simps EncodeVarint32_def EncodeVarint.simps
      resize_def)

lemma Finish_example: "snd (BlockBuilder_Finish built_example) = block_example_bytes"
  by (simp add: BlockBuilder_Finish_def Let_def built_example_def block_example_bytes_def
      EncodeFixed32_def EncodeFixed_numeral)


lemma DecodeBlock_example:
  "DecodeBlock block_example_bytes =
     Some ([\<lparr> e_offset = 0, e_shared = 0, e_key = [97, 98, 99], e_value = [1] \<rparr>,
            \<lparr> e_offset = 7, e_shared = 2, e_key = [97, 98, 100], e_value = [2] \<rparr>,
            \<lparr> e_offset = 12, e_shared = 0, e_key = [97, 98, 101], e_value = [3] \<rparr>],
           [0, 12])"
  by code_simp


text \<open>
  A builder to which nothing was added holds the restart point of its constructor: the
  finished block of 8 bytes has one restart point and no record.
\<close>

theorem BlockBuilder_restart_count_empty:
  "BlockBuilder_new (options_example 1) = Some (fresh_example 1) \<and>
   AddAll (fresh_example 1) [] = Some (fresh_example 1) \<and>
   snd (BlockBuilder_Finish (fresh_example 1)) = [0, 0, 0, 0, 1, 0, 0, 0] \<and>
   unat (NumRestarts [0, 0, 0, 0, 1, 0, 0, 0]) = 1 \<and>
   DecodeBlock [0, 0, 0, 0, 1, 0, 0, 0] = Some ([], [0]) \<and>
   (length ([] :: (bytes \<times> bytes) list) + nat 1 - 1) div nat 1 = 0"
proof -
  have "snd (BlockBuilder_Finish (fresh_example 1)) = [0, 0, 0, 0, 1, 0, 0, 0]"
    by (simp add: BlockBuilder_Finish_def Let_def fresh_example_def
        EncodeFixed32_def EncodeFixed_numeral)
  moreover have "unat (NumRestarts [0, 0, 0, 0, 1, 0, 0, 0]) = 1"
    by (simp add: NumRestarts_def DecodeFixed32_def)
  moreover have "DecodeBlock [0, 0, 0, 0, 1, 0, 0, 0] = Some ([], [0])"
    by code_simp
  ultimately show ?thesis
    by (simp add: BlockBuilder_new_example)
qed

theorem BlockBuilder_restart_count_witness:
  "BlockBuilder_new (options_example 2) = Some (fresh_example 2) \<and>
   AddAll (fresh_example 2) kvs_example = Some built_example \<and>
   length kvs_example = 3 \<and>
   length (bb_restarts built_example) = 2 \<and>
   length (snd (BlockBuilder_Finish built_example)) < 2 ^ 32 \<and>
   unat (NumRestarts (snd (BlockBuilder_Finish built_example))) = 2"
proof -
  have new: "BlockBuilder_new (options_example 2) = Some (fresh_example 2)"
    by (simp add: BlockBuilder_new_example)
  have small: "length (snd (BlockBuilder_Finish built_example)) < 2 ^ 32"
    by (simp add: Finish_example block_example_bytes_def)
  have n: "length kvs_example = 3" and ne: "kvs_example \<noteq> []"
    by (simp_all add: kvs_example_def)
  have r: "block_restart_interval (options_example 2) = 2"
    by (simp add: options_example_def)
  note t = BlockBuilder_restart_count [OF new AddAll_example]
  from t have c: "length (bb_restarts built_example) = 2"
    by (simp add: n ne r)
  from t small have "unat (NumRestarts (snd (BlockBuilder_Finish built_example))) =
                       length (bb_restarts built_example)"
    by blast
  with c new AddAll_example n small show ?thesis
    by simp
qed

section \<open>Eviction and reference counts of the cache\<close>

lemma refs_minus_one: "(r :: 32 word) \<noteq> 0 \<Longrightarrow> (r - 1 \<le> 0) = (r = 1)"
  by (simp add: word_le_0_iff)

lemma refs_pos: "((r :: 32 word) > 0) = (r \<noteq> 0)"
  by (simp add: word_greater_zero_iff)

lemma Unref_live:
  assumes "c_heap c e = Some h" and "h_refs h \<noteq> 0"
  shows "Unref c e =
           Some (if h_refs h = 1
                 then c\<lparr>c_usage := c_usage c - h_charge h,
                        c_deleted := c_deleted c @ [(e, h_deleter h, h_key h, h_value h)],
                        c_heap := (c_heap c)(e := None)\<rparr>
                 else c\<lparr>c_heap := (c_heap c)(e \<mapsto> h\<lparr>h_refs := h_refs h - 1\<rparr>)\<rparr>)"
  using assms by (simp add: Unref_def Let_def refs_minus_one refs_pos)






lemma freed_Nil [simp]: "freed_charge c [] = 0" "freed_calls c [] = []"
  by (simp_all add: freed_charge_def freed_calls_def)


lemma Unref_frame:
  assumes "Unref c b = Some c'" and "b \<noteq> a"
  shows "c_heap c' a = c_heap c a" and "c_lru c' = c_lru c" and "c_table c' = c_table c"
    and "c_next c' = c_next c" and "deleter_calls c' a = deleter_calls c a"
  using assms
  by (auto simp: Unref_def Let_def deleter_calls_def split: option.splits if_splits)

lemma Unref_self:
  assumes "Unref c a = Some c'"
  shows "\<exists>h. c_heap c a = Some h \<and> h_refs h \<noteq> 0 \<and>
             c_lru c' = c_lru c \<and> c_table c' = c_table c \<and> c_next c' = c_next c \<and>
             (if h_refs h = 1
              then c_heap c' a = None \<and>
                   deleter_calls c' a = deleter_calls c a @ [(a, h_deleter h, h_key h, h_value h)]
              else c_heap c' a = Some (h\<lparr>h_refs := h_refs h - 1\<rparr>) \<and>
                   deleter_calls c' a = deleter_calls c a)"
proof -
  from assms obtain h where h: "c_heap c a = Some h" "h_refs h \<noteq> 0"
    by (auto simp: Unref_def refs_pos split: option.splits if_splits)
  show ?thesis
    using assms h unfolding Unref_live [OF h]
    by (auto simp: deleter_calls_def)
qed

lemma ran_upd_None: "ran (m(x := None)) \<subseteq> ran m"
  by (auto simp: ran_def split: if_splits)

lemma evict_oldest_frame:
  assumes "evict_oldest c = Some c'" and "a \<notin> set (c_lru c)"
  shows "c_heap c' a = c_heap c a" and "set (c_lru c') \<subseteq> set (c_lru c)"
    and "ran (c_table c') \<subseteq> ran (c_table c)"
    and "c_next c' = c_next c" and "deleter_calls c' a = deleter_calls c a"
proof -
  let ?old = "hd (c_lru c)"
  from assms(1) have mem: "?old \<in> set (c_lru c)"
    by (auto simp: evict_oldest_def LRU_Remove_def Let_def split: option.splits if_splits)
  with assms(1) obtain h where hh: "c_heap c ?old = Some h"
    by (auto simp: evict_oldest_def LRU_Remove_def Let_def split: option.splits)
  have u: "Unref (c\<lparr>c_lru := remove1 ?old (c_lru c),
                  c_table := (c_table c)((h_hash h, h_key h) := None)\<rparr>) ?old = Some c'"
    using assms(1) mem hh by (simp add: evict_oldest_def LRU_Remove_def Let_def)
  from mem assms(2) have ne: "?old \<noteq> a" by auto
  note f = Unref_frame [OF u ne]
  show "c_heap c' a = c_heap c a" using f(1) by simp
  show "set (c_lru c') \<subseteq> set (c_lru c)" using f(2) set_remove1_subset [of ?old "c_lru c"] by simp
  show "ran (c_table c') \<subseteq> ran (c_table c)" using f(3) ran_upd_None [of "c_table c"] by simp
  show "c_next c' = c_next c" using f(4) by simp
  show "deleter_calls c' a = deleter_calls c a" using f(5) by (simp add: deleter_calls_def)
qed

lemma evict_frame:
  assumes "evict c = Some c'" and "a \<notin> set (c_lru c)"
  shows "c_heap c' a = c_heap c a \<and> set (c_lru c') \<subseteq> set (c_lru c) \<and>
         ran (c_table c') \<subseteq> ran (c_table c) \<and> c_next c' = c_next c \<and>
         deleter_calls c' a = deleter_calls c a"
  using assms
proof (induction c rule: evict.induct)
  case (1 c)
  show ?case
  proof (cases "c_usage c > c_capacity c \<and> c_lru c \<noteq> []")
    case False
    have "evict c = Some c"
      by (subst evict.simps) (use False in auto)
    with "1.prems" show ?thesis by simp
  next
    case True
    from "1.prems"(1) obtain c3 where eo: "evict_oldest c = Some c3" and ev: "evict c3 = Some c'"
      by (subst (asm) evict.simps) (use True in \<open>auto split: option.splits\<close>)
    note f = evict_oldest_frame [OF eo "1.prems"(2)]
    have "a \<notin> set (c_lru c3)"
      using f(2) "1.prems"(2) by auto
    from "1.IH" [OF True eo ev this] f show ?thesis
      by auto
  qed
qed

lemma notin_ran_upd: "a \<notin> ran m \<Longrightarrow> a \<noteq> e \<Longrightarrow> a \<notin> ran (m(x \<mapsto> e))"
  by (auto simp: ran_def)

lemma notin_ran_del: "a \<notin> ran m \<Longrightarrow> a \<notin> ran (m(x := None))"
  using ran_upd_None [of m x] by auto

lemma Lookup_frame:
  assumes "Lookup c key hash = Some (c', r)" and "detached c a"
  shows "detached c' a \<and> c_heap c' a = c_heap c a \<and> deleter_calls c' a = deleter_calls c a"
proof (cases "c_table c (hash, key)")
  case None
  with assms show ?thesis by (simp add: Lookup_def)
next
  case (Some e)
  then have "e \<in> ran (c_table c)" by (auto simp: ran_def)
  with assms(2) have ne: "e \<noteq> a" by (auto simp: detached_def)
  from assms(1) Some obtain h where h: "c_heap c e = Some h"
    by (auto simp: Lookup_def split: option.splits)
  have c': "c' = c\<lparr>c_heap := (c_heap c)(e \<mapsto> h\<lparr>h_refs := h_refs h + 1\<rparr>),
                  c_lru := remove1 e (c_lru c) @ [e]\<rparr>"
    using assms(1) Some h
    by (auto simp: Lookup_def LRU_Remove_def LRU_Append_def Let_def split: if_splits)
  show ?thesis
    using assms(2) ne by (auto simp: c' detached_def deleter_calls_def dest: notin_set_remove1)
qed

lemma Erase_frame:
  assumes "Erase c key hash = Some c'" and "detached c a"
  shows "detached c' a \<and> c_heap c' a = c_heap c a \<and> deleter_calls c' a = deleter_calls c a"
proof (cases "c_table c (hash, key)")
  case None
  with assms show ?thesis by (simp add: Erase_def)
next
  case (Some e)
  then have "e \<in> ran (c_table c)" by (auto simp: ran_def)
  with assms(2) have ne: "e \<noteq> a" by (auto simp: detached_def)
  let ?c1 = "c\<lparr>c_table := (c_table c)((hash, key) := None), c_lru := remove1 e (c_lru c)\<rparr>"
  have u: "Unref ?c1 e = Some c'"
    using assms(1) Some by (auto simp: Erase_def LRU_Remove_def split: option.splits if_splits)
  note f = Unref_frame [OF u ne]
  have "detached ?c1 a"
    using assms(2) notin_ran_del [of a "c_table c" "(hash, key)"]
    by (auto simp: detached_def dest: notin_set_remove1)
  then show ?thesis
    using f by (simp add: detached_def deleter_calls_def)
qed

lemma Insert_frame:
  assumes "Insert c key hash v ch d = Some (c', r)" and "detached c a"
  shows "detached c' a \<and> c_heap c' a = c_heap c a \<and> deleter_calls c' a = deleter_calls c a"
proof -
  let ?e = "c_next c"
  let ?h = "\<lparr> h_value = v, h_deleter = d, h_charge = ch, h_key = key, h_refs = 2, h_hash = hash \<rparr>"
  let ?c3 = "c\<lparr>c_heap := (c_heap c)(?e \<mapsto> ?h), c_next := Suc ?e, c_lru := c_lru c @ [?e],
               c_usage := c_usage c + ch, c_table := (c_table c)((hash, key) \<mapsto> ?e)\<rparr>"
  have ae: "a \<noteq> ?e" using assms(2) by (auto simp: detached_def)
  have d3: "detached ?c3 a" and h3: "c_heap ?c3 a = c_heap c a"
    and l3: "deleter_calls ?c3 a = deleter_calls c a"
    using assms(2) ae notin_ran_upd [of a "c_table c" ?e "(hash, key)"]
    by (auto simp: detached_def deleter_calls_def)
  obtain c5 where c5: "(case c_table c (hash, key) of None \<Rightarrow> Some ?c3
                        | Some old_e \<Rightarrow> (case LRU_Remove ?c3 old_e of None \<Rightarrow> None
                                          | Some c4 \<Rightarrow> Unref c4 old_e)) = Some c5"
    and ev: "evict c5 = Some c'"
    using assms(1) by (auto simp: Insert_def Let_def LRU_Append_def split: option.splits)
  have d5: "detached c5 a \<and> c_heap c5 a = c_heap c a \<and> deleter_calls c5 a = deleter_calls c a"
  proof (cases "c_table c (hash, key)")
    case None
    with c5 d3 h3 l3 show ?thesis by simp
  next
    case (Some old_e)
    then have "old_e \<in> ran (c_table c)" by (auto simp: ran_def)
    with assms(2) have ne: "old_e \<noteq> a" by (auto simp: detached_def)
    let ?c4 = "?c3\<lparr>c_lru := remove1 old_e (c_lru ?c3)\<rparr>"
    have u: "Unref ?c4 old_e = Some c5"
      using c5 Some by (auto simp: LRU_Remove_def split: option.splits if_splits)
    note f = Unref_frame [OF u ne]
    have "detached ?c4 a"
      using d3 by (auto simp: detached_def dest: notin_set_remove1)
    then show ?thesis
      using f h3 l3 by (simp add: detached_def deleter_calls_def)
  qed
  then have "a \<notin> set (c_lru c5)" by (simp add: detached_def)
  from evict_frame [OF ev this] d5 show ?thesis
    by (auto simp: detached_def)
qed

lemma step_frame:
  assumes "step c op = Some c'" and "detached c a" and "op \<noteq> OpRelease a"
  shows "detached c' a \<and> c_heap c' a = c_heap c a \<and> deleter_calls c' a = deleter_calls c a"
proof (cases op)
  case (OpInsert key hash v ch d)
  with assms(1) obtain r where "Insert c key hash v ch d = Some (c', r)"
    by (auto split: option.splits)
  from Insert_frame [OF this assms(2)] show ?thesis .
next
  case (OpLookup key hash)
  with assms(1) obtain r where "Lookup c key hash = Some (c', r)"
    by (auto split: option.splits)
  from Lookup_frame [OF this assms(2)] show ?thesis .
next
  case (OpRelease b)
  with assms have u: "Unref c b = Some c'" and ne: "b \<noteq> a"
    by (auto simp: Release_def)
  from Unref_frame [OF u ne] assms(2) show ?thesis
    by (simp add: detached_def)
next
  case (OpErase key hash)
  with assms(1) have "Erase c key hash = Some c'" by simp
  from Erase_frame [OF this assms(2)] show ?thesis .
qed

lemma step_release:
  assumes "step c (OpRelease a) = Some c'" and "detached c a"
  shows "detached c' a \<and>
         (\<exists>h. c_heap c a = Some h \<and> h_refs h \<noteq> 0 \<and>
             (if h_refs h = 1
              then c_heap c' a = None \<and>
                   deleter_calls c' a = deleter_calls c a @ [(a, h_deleter h, h_key h, h_value h)]
              else c_heap c' a = Some (h\<lparr>h_refs := h_refs h - 1\<rparr>) \<and>
                   deleter_calls c' a = deleter_calls c a))"
proof -
  from assms(1) have u: "Unref c a = Some c'" by (simp add: Release_def)
  from Unref_self [OF u] assms(2) show ?thesis
    by (auto simp: detached_def)
qed

text \<open>Once an entry is detached and freed, a run that returns never releases it again.\<close>

lemma run_freed:
  assumes "run c ops = Some c'" and "detached c a" and "c_heap c a = None"
  shows "count_list ops (OpRelease a) = 0 \<and> c_heap c' a = None \<and>
         deleter_calls c' a = deleter_calls c a"
  using assms
proof (induction ops arbitrary: c)
  case Nil
  then show ?case by simp
next
  case (Cons op ops)
  from Cons.prems(1) obtain c1 where s: "step c op = Some c1" and r: "run c1 ops = Some c'"
    by (auto split: option.splits)
  have ne: "op \<noteq> OpRelease a"
  proof
    assume "op = OpRelease a"
    with s Cons.prems(2,3) step_release [of c a c1] show False by auto
  qed
  from step_frame [OF s Cons.prems(2) ne] Cons.prems(3)
  have "detached c1 a" "c_heap c1 a = None" "deleter_calls c1 a = deleter_calls c a"
    by simp_all
  with Cons.IH [OF r] ne show ?case by simp
qed

lemma unat_refs_minus_one:
  "(r :: 32 word) \<noteq> 0 \<Longrightarrow> unat (r - 1) = unat r - 1"
  by (simp add: unat_minus_one)

lemma run_detached:
  assumes "run c ops = Some c'" and "detached c a" and "c_heap c a = Some h" and "h_refs h \<noteq> 0"
  shows "count_list ops (OpRelease a) \<le> unat (h_refs h) \<and>
         (if count_list ops (OpRelease a) < unat (h_refs h)
          then c_heap c' a = Some (h\<lparr>h_refs := h_refs h - of_nat (count_list ops (OpRelease a))\<rparr>) \<and>
               deleter_calls c' a = deleter_calls c a
          else c_heap c' a = None \<and>
               deleter_calls c' a = deleter_calls c a @ [(a, h_deleter h, h_key h, h_value h)])"
  using assms
proof (induction ops arbitrary: c h)
  case Nil
  then have "0 < unat (h_refs h)"
    by (simp add: unat_gt_0)
  with Nil show ?case by simp
next
  case (Cons op ops)
  from Cons.prems(1) obtain c1 where s: "step c op = Some c1" and r: "run c1 ops = Some c'"
    by (auto split: option.splits)
  have pos: "0 < unat (h_refs h)"
    using Cons.prems(4) by (simp add: unat_gt_0)
  show ?case
  proof (cases "op = OpRelease a")
    case False
    from step_frame [OF s Cons.prems(2) False] Cons.prems(3)
    have "detached c1 a" "c_heap c1 a = Some h" "deleter_calls c1 a = deleter_calls c a"
      by simp_all
    with Cons.IH [OF r _ _ Cons.prems(4)] False show ?thesis by simp
  next
    case True
    from step_release [OF s [unfolded True] Cons.prems(2)] Cons.prems(3)
    have d1: "detached c1 a"
      and st: "if h_refs h = 1
               then c_heap c1 a = None \<and>
                    deleter_calls c1 a = deleter_calls c a @ [(a, h_deleter h, h_key h, h_value h)]
               else c_heap c1 a = Some (h\<lparr>h_refs := h_refs h - 1\<rparr>) \<and>
                    deleter_calls c1 a = deleter_calls c a"
      by auto
    show ?thesis
    proof (cases "h_refs h = 1")
      case one: True
      with st have "c_heap c1 a = None"
        and l: "deleter_calls c1 a = deleter_calls c a @ [(a, h_deleter h, h_key h, h_value h)]"
        by simp_all
      from run_freed [OF r d1 this(1)] l one True show ?thesis
        by simp
    next
      case more: False
      let ?h1 = "h\<lparr>h_refs := h_refs h - 1\<rparr>"
      from st more have h1: "c_heap c1 a = Some ?h1"
        and l: "deleter_calls c1 a = deleter_calls c a" by simp_all
      have nz: "h_refs ?h1 \<noteq> 0"
        using more by simp
      have u: "unat (h_refs h - 1) = unat (h_refs h) - 1"
        using Cons.prems(4) by (simp add: unat_refs_minus_one)
      define j where "j = count_list ops (OpRelease a)"
      have w: "h_refs h - 1 - of_nat j = h_refs h - of_nat (Suc j)"
        by simp
      have cnt: "count_list (op # ops) (OpRelease a) = Suc j"
        using True by (simp add: j_def)
      from Cons.IH [OF r d1 h1 nz]
      have ih: "j \<le> unat (h_refs h) - 1"
        and ih2: "if j < unat (h_refs h) - 1
                  then c_heap c' a = Some (h\<lparr>h_refs := h_refs h - 1 - of_nat j\<rparr>) \<and>
                       deleter_calls c' a = deleter_calls c1 a
                  else c_heap c' a = None \<and>
                       deleter_calls c' a =
                         deleter_calls c1 a @ [(a, h_deleter h, h_key h, h_value h)]"
        by (simp_all add: j_def u)
      have le: "Suc j \<le> unat (h_refs h)"
        using ih pos by simp
      have lt: "Suc j < unat (h_refs h) \<longleftrightarrow> j < unat (h_refs h) - 1"
        using pos by auto
      show ?thesis
        unfolding cnt using le ih2 by (simp add: lt w l del: of_nat_Suc)
    qed
  qed
qed

lemma refs_ge_2: "2 \<le> unat (r :: 32 word) \<Longrightarrow> r \<noteq> 0 \<and> r \<noteq> 1"
  by auto

lemma Erase_detaches:
  assumes e: "Erase c key hash = Some c1"
    and t: "c_table c (hash, key) = Some a" and h: "c_heap c a = Some h"
    and r: "2 \<le> unat (h_refs h)"
    and inj: "\<forall>x. c_table c x = Some a \<longrightarrow> x = (hash, key)"
    and d: "distinct (c_lru c)" and n: "a < c_next c"
  shows "detached c1 a \<and> c_heap c1 a = Some (h\<lparr>h_refs := h_refs h - 1\<rparr>) \<and>
         deleter_calls c1 a = deleter_calls c a"
proof -
  note rr = refs_ge_2 [OF r]
  let ?c1 = "c\<lparr>c_table := (c_table c)((hash, key) := None), c_lru := remove1 a (c_lru c)\<rparr>"
  have u: "Unref ?c1 a = Some c1"
    using e t by (auto simp: Erase_def LRU_Remove_def split: option.splits if_splits)
  have "c_heap ?c1 a = Some h" using h by simp
  from Unref_live [OF this] rr u
  have c1: "c1 = ?c1\<lparr>c_heap := (c_heap ?c1)(a \<mapsto> h\<lparr>h_refs := h_refs h - 1\<rparr>)\<rparr>"
    by simp
  have "a \<notin> ran ((c_table c)((hash, key) := None))"
    using inj by (auto simp: ran_def split: if_splits)
  then show ?thesis
    using d n by (simp add: c1 detached_def deleter_calls_def)
qed

lemma Insert_detaches:
  assumes i: "Insert c key hash v ch dl = Some (c1, e)"
    and t: "c_table c (hash, key) = Some a" and h: "c_heap c a = Some h"
    and r: "2 \<le> unat (h_refs h)"
    and inj: "\<forall>x. c_table c x = Some a \<longrightarrow> x = (hash, key)"
    and d: "distinct (c_lru c)" and n: "a < c_next c"
  shows "detached c1 a \<and> c_heap c1 a = Some (h\<lparr>h_refs := h_refs h - 1\<rparr>) \<and>
         deleter_calls c1 a = deleter_calls c a"
proof -
  note rr = refs_ge_2 [OF r]
  define c3 where
    "c3 = (LRU_Append (c\<lparr>c_heap := (c_heap c)(c_next c \<mapsto>
               \<lparr> h_value = v, h_deleter = dl, h_charge = ch, h_key = key,
                 h_refs = 2, h_hash = hash \<rparr>), c_next := Suc (c_next c)\<rparr>) (c_next c))
            \<lparr>c_usage := c_usage c + ch, c_table := (c_table c)((hash, key) \<mapsto> c_next c)\<rparr>"
  have ae: "a \<noteq> c_next c" using n by simp
  have f3: "c_heap c3 a = Some h" "c_lru c3 = c_lru c @ [c_next c]"
    "c_table c3 = (c_table c)((hash, key) \<mapsto> c_next c)" "c_next c3 = Suc (c_next c)"
    "c_deleted c3 = c_deleted c"
    using h ae by (simp_all add: c3_def LRU_Append_def)
  from i t have "(case (case LRU_Remove c3 a of None \<Rightarrow> None | Some c4 \<Rightarrow> Unref c4 a) of
                    None \<Rightarrow> None
                  | Some c5 \<Rightarrow> (case evict c5 of None \<Rightarrow> None | Some c6 \<Rightarrow> Some (c6, c_next c)))
                 = Some (c1, e)"
    by (simp add: Insert_def Let_def c3_def LRU_Append_def)
  then obtain c4 c5 where r4: "LRU_Remove c3 a = Some c4" and u: "Unref c4 a = Some c5"
    and ev: "evict c5 = Some c1"
    by (auto split: option.splits)
  from r4 have c4: "c4 = c3\<lparr>c_lru := remove1 a (c_lru c3)\<rparr>"
    by (auto simp: LRU_Remove_def split: if_splits)
  have "c_heap c4 a = Some h" using f3 by (simp add: c4)
  from Unref_live [OF this] rr u
  have c5: "c5 = c4\<lparr>c_heap := (c_heap c4)(a \<mapsto> h\<lparr>h_refs := h_refs h - 1\<rparr>)\<rparr>"
    by simp
  have nr: "a \<notin> ran ((c_table c)((hash, key) \<mapsto> c_next c))"
    using inj ae by (auto simp: ran_def split: if_splits)
  have nl: "a \<notin> set (remove1 a (c_lru c @ [c_next c]))"
    using d ae by (auto simp: remove1_append)
  have d5: "detached c5 a" and h5: "c_heap c5 a = Some (h\<lparr>h_refs := h_refs h - 1\<rparr>)"
    and l5: "deleter_calls c5 a = deleter_calls c a"
    using nr nl n f3 by (simp_all add: c5 c4 detached_def deleter_calls_def)
  then have "a \<notin> set (c_lru c5)" by (simp add: detached_def)
  from evict_frame [OF ev this] d5 h5 l5 show ?thesis
    by (auto simp: detached_def)
qed

text \<open>
  C9. An entry \<open>a\<close> is in the index under its key with the reference of the cache and
  at least one handle of a caller (\<open>refs \<ge> 2\<close>), and its deleter was not called. Its
  key is erased, or replaced by an \<open>Insert\<close> of the same key, and any calls on the
  shard follow. As long as fewer handles were released than callers held, the entry is
  allocated with its key and value, \<open>Value\<close> reads its value, and its deleter was not
  called. With the release of the last handle the entry is freed, and its deleter was
  called exactly once, on its key and value. No run releases more handles than were
  held.
\<close>

theorem erased_entry_valid_until_release:
  assumes "c_table c (hash, key) = Some a" and "c_heap c a = Some h"
    and "2 \<le> unat (h_refs h)"
    and "\<forall>x. c_table c x = Some a \<longrightarrow> x = (hash, key)"
    and "distinct (c_lru c)" and "a < c_next c" and "deleter_calls c a = []"
    and "first = OpErase key hash \<or> first = OpInsert key hash v ch dl"
    and "run c (first # ops) = Some c'"
  shows "count_list ops (OpRelease a) \<le> unat (h_refs h) - 1 \<and>
         (if count_list ops (OpRelease a) < unat (h_refs h) - 1
          then c_heap c' a =
                 Some (h\<lparr>h_refs := h_refs h - 1 - of_nat (count_list ops (OpRelease a))\<rparr>) \<and>
               Value c' a = Some (h_value h) \<and> deleter_calls c' a = []
          else c_heap c' a = None \<and>
               deleter_calls c' a = [(a, h_deleter h, h_key h, h_value h)])"
proof -
  from assms(9) obtain c1 where s: "step c first = Some c1" and r: "run c1 ops = Some c'"
    by (auto split: option.splits)
  let ?h1 = "h\<lparr>h_refs := h_refs h - 1\<rparr>"
  have d1: "detached c1 a \<and> c_heap c1 a = Some ?h1 \<and> deleter_calls c1 a = deleter_calls c a"
  proof (cases "first = OpErase key hash")
    case True
    with s have "Erase c key hash = Some c1" by simp
    from Erase_detaches [OF this assms(1-6)] show ?thesis .
  next
    case False
    with assms(8) have "first = OpInsert key hash v ch dl" by simp
    with s obtain e where "Insert c key hash v ch dl = Some (c1, e)"
      by (auto split: option.splits)
    from Insert_detaches [OF this assms(1-6)] show ?thesis .
  qed
  note rr = refs_ge_2 [OF assms(3)]
  have nz: "h_refs ?h1 \<noteq> 0"
    using rr by simp
  have u: "unat (h_refs h - 1) = unat (h_refs h) - 1"
    using rr by (simp add: unat_refs_minus_one)
  from run_detached [OF r _ _ nz] d1
  have "count_list ops (OpRelease a) \<le> unat (h_refs h - 1)"
    and "if count_list ops (OpRelease a) < unat (h_refs h - 1)
         then c_heap c' a =
                Some (h\<lparr>h_refs := h_refs h - 1 - of_nat (count_list ops (OpRelease a))\<rparr>) \<and>
              deleter_calls c' a = deleter_calls c1 a
         else c_heap c' a = None \<and>
              deleter_calls c' a = deleter_calls c1 a @ [(a, h_deleter h, h_key h, h_value h)]"
    by simp_all
  then show ?thesis
    using d1 assms(7) by (auto simp: u Value_def)
qed

lemmas cache_defs = Insert_def Lookup_def Erase_def Release_def Unref_def LRU_Remove_def
  LRU_Append_def evict.simps evict_oldest_def LRUCache_new_def Let_def entry_example_def



lemma run_example_1:
  "run cache_one [OpErase [1] 1, OpLookup [1] 1, OpRelease 0] \<noteq> None"
  by (simp add: cache_defs cache_one_def)

lemma run_example_2:
  "run cache_one [OpErase [1] 1, OpLookup [1] 1] \<noteq> None"
  by (simp add: cache_defs cache_one_def)

lemma cache_one_reached: "run (LRUCache_new 10) [OpInsert [1] 1 10 1 7] = Some cache_one"
  by (simp add: cache_defs cache_one_def)

theorem erased_entry_valid_until_release_witness:
  "c_table cache_one (1, [1]) = Some 0 \<and>
   c_heap cache_one 0 = Some (entry_example 10 [1] 1 2) \<and>
   2 \<le> unat (h_refs (entry_example 10 [1] 1 2)) \<and>
   distinct (c_lru cache_one) \<and> 0 < c_next cache_one \<and> deleter_calls cache_one 0 = [] \<and>
   (\<exists>c'. run cache_one [OpErase [1] 1, OpLookup [1] 1] = Some c' \<and>
         Value c' 0 = Some 10 \<and> deleter_calls c' 0 = []) \<and>
   (\<exists>c'. run cache_one [OpErase [1] 1, OpLookup [1] 1, OpRelease 0] = Some c' \<and>
         c_heap c' 0 = None \<and> deleter_calls c' 0 = [(0, 7, [1], 10)])"
proof -
  let ?h = "entry_example 10 [1] 1 2"
  have t: "c_table cache_one (1, [1]) = Some 0"
    and h: "c_heap cache_one 0 = Some ?h"
    and d: "distinct (c_lru cache_one)" and n: "0 < c_next cache_one"
    and l: "deleter_calls cache_one 0 = []"
    by (simp_all add: cache_one_def deleter_calls_def)
  have r: "2 \<le> unat (h_refs ?h)"
    by (simp add: entry_example_def)
  have inj: "\<forall>x. c_table cache_one x = Some 0 \<longrightarrow> x = (1, [1])"
    by (simp add: cache_one_def)
  have f: "OpErase [1] 1 = OpErase [1] 1 \<or> OpErase [1] 1 = OpInsert [1] 1 0 0 0"
    by simp
  have u: "unat (h_refs ?h) = 2"
    by (simp add: entry_example_def)
  have hv: "h_value ?h = 10" "h_deleter ?h = 7" "h_key ?h = [1]"
    by (simp_all add: entry_example_def)
  from run_example_2 obtain c2 where
    r2: "run cache_one [OpErase [1] 1, OpLookup [1] 1] = Some c2"
    by blast
  from run_example_1 obtain c1 where
    r1: "run cache_one [OpErase [1] 1, OpLookup [1] 1, OpRelease 0] = Some c1"
    by blast
  from erased_entry_valid_until_release [OF t h r inj d n l f r2]
  have a2: "Value c2 0 = Some 10 \<and> deleter_calls c2 0 = []"
    by (simp add: u hv)
  from erased_entry_valid_until_release [OF t h r inj d n l f r1]
  have a1: "c_heap c1 0 = None \<and> deleter_calls c1 0 = [(0, 7, [1], 10)]"
    by (simp add: u hv)
  from t h r d n l r2 a2 r1 a1 show ?thesis
    by blast
qed

end
